theory Spec2Isabelle
  imports Main "HOL-Library.Word" "HOL-Library.Multiset"
begin

unbundle bit_operations_syntax

section \<open>Huffman coding: data model\<close>

text \<open>
  The development follows \<^verbatim>\<open>src/huffman.c\<close>. Contracts (\<^verbatim>\<open>REQUIRES\<close>,
  \<^verbatim>\<open>ASSERT\<close>, \<^verbatim>\<open>ENSURES\<close>) and C \<^verbatim>\<open>assert\<close>s are branches of the model
  that return an error value, as are the two calls of \<^verbatim>\<open>error\<close>, which print a
  message and exit. A read through the \<^verbatim>\<open>NULL\<close> pointer is an error value too.
  Allocation (\<^verbatim>\<open>xmalloc\<close>, \<^verbatim>\<open>xcalloc\<close>) always succeeds.
\<close>

datatype error =
    AlphabetTooSmallError   \<comment> \<open>\<^verbatim>\<open>error("Only 0 or 1 distinct character in the text")\<close>\<close>
  | TruncatedCodeError      \<comment> \<open>\<^verbatim>\<open>error("Invalid code to decode!")\<close>\<close>
  | ContractViolation       \<comment> \<open>a failed \<^verbatim>\<open>REQUIRES\<close>, \<^verbatim>\<open>ASSERT\<close> or \<^verbatim>\<open>ENSURES\<close>\<close>
  | AssertionFailure        \<comment> \<open>a failed C \<^verbatim>\<open>assert\<close>\<close>
  | NullDereference         \<comment> \<open>a field read through \<^verbatim>\<open>NULL\<close>\<close>
  | OutOfBounds             \<comment> \<open>an array access outside the allocated block\<close>
  | UseAfterFree            \<comment> \<open>a field read through a pointer to a block that is not allocated\<close>
  | InvalidFree             \<comment> \<open>\<^verbatim>\<open>free\<close> of a block that is not allocated\<close>

text \<open>
  Modelled from the spec: \<^verbatim>\<open>symbol_t\<close> and \<^verbatim>\<open>NUM_SYMBOLS\<close> are declared in
  headers that are not part of the sources. The spec makes a symbol a byte value
  (0 to 255) that is used both as data and as array index, over a fixed alphabet of
  \<^verbatim>\<open>NUM_SYMBOLS\<close> symbols. An array of \<^verbatim>\<open>NUM_SYMBOLS\<close> cells indexed by a
  symbol is therefore a total function on symbols.
\<close>

type_synonym symbol_t = "8 word"

definition NUM_SYMBOLS :: nat where
  "NUM_SYMBOLS = 256"

type_synonym freqtable_t = "symbol_t \<Rightarrow> 32 word"

type_synonym bitstring_t = string

text \<open>A code table cell is a pointer to a bit-string, \<open>None\<close> for \<^verbatim>\<open>NULL\<close>.\<close>

type_synonym codetable_t = "symbol_t \<Rightarrow> bitstring_t option"

text \<open>
  \<^verbatim>\<open>struct htree_node\<close>, reached through a pointer: \<open>Null\<close> is the \<^verbatim>\<open>NULL\<close>
  pointer, \<open>Node\<close> a pointer to a node with its four fields (the field
  \<^verbatim>\<open>value\<close> is \<open>val\<close> here). Trees are built without sharing, so that a node is
  determined by the fields below it.
\<close>

datatype htree =
    Null
  | Node (val: symbol_t) (frequency: "32 word") (left: htree) (right: htree)

section \<open>Task 1: data structure invariants\<close>

fun is_htree_leaf :: "htree \<Rightarrow> bool" where
  "is_htree_leaf Null = False"
| "is_htree_leaf (Node v f l r) = (if f \<le> 0 then False else l = Null \<and> r = Null)"

fun is_htree :: "htree \<Rightarrow> bool"
  and is_htree_interior :: "htree \<Rightarrow> bool" where
  "is_htree Null = False"
| "is_htree (Node v f l r) =
     (is_htree_leaf (Node v f l r) \<or> is_htree_interior (Node v f l r))"
| "is_htree_interior Null = False"
| "is_htree_interior (Node v f l r) =
     (if \<not> (is_htree l \<and> is_htree r) then False
      else f = frequency l + frequency r)"

section \<open>Task 2: building Huffman trees from frequency tables\<close>

fun htree_higher_priority :: "htree \<Rightarrow> htree \<Rightarrow> error + bool" where
  "htree_higher_priority tree1 tree2 =
     (if tree1 = Null \<or> tree2 = Null then Inl ContractViolation
      else if \<not> is_htree tree1 then Inl ContractViolation
      else if \<not> is_htree tree2 then Inl ContractViolation
      else Inr (frequency tree1 < frequency tree2))"

text \<open>
  Modelled from the spec: the priority queue of \<^verbatim>\<open>lib/heaps.h\<close> is not part of
  the sources. The spec gives its interface: create with a capacity and a strict
  comparator, is-empty, is-full, insert, and remove the highest-priority item. The
  comparator is strict, so among items of equal priority the queue's own discipline
  decides; here it is insertion order: the item removed is the first one inserted that no
  other item strictly precedes. The properties proved of \<^verbatim>\<open>build_htree\<close> below use
  only that the removed item is one of the queued items.
\<close>

record pq =
  capacity :: nat
  items :: "htree list"

definition pq_new :: "nat \<Rightarrow> pq" where
  "pq_new cap = \<lparr>capacity = cap, items = []\<rparr>"

definition pq_empty :: "pq \<Rightarrow> bool" where
  "pq_empty Q = (items Q = [])"

definition pq_full :: "pq \<Rightarrow> bool" where
  "pq_full Q = (capacity Q \<le> length (items Q))"

definition pq_add :: "pq \<Rightarrow> htree \<Rightarrow> pq" where
  "pq_add Q e = Q\<lparr>items := items Q @ [e]\<rparr>"

fun pq_best :: "htree \<Rightarrow> htree list \<Rightarrow> error + htree" where
  "pq_best best [] = Inr best"
| "pq_best best (e # es) =
     (case htree_higher_priority e best of
        Inl err \<Rightarrow> Inl err
      | Inr True \<Rightarrow> pq_best e es
      | Inr False \<Rightarrow> pq_best best es)"

definition pq_rem :: "pq \<Rightarrow> error + (htree \<times> pq)" where
  "pq_rem Q =
     (case items Q of
        [] \<Rightarrow> Inl ContractViolation
      | e # es \<Rightarrow>
          (case pq_best e es of
             Inl err \<Rightarrow> Inl err
           | Inr best \<Rightarrow> Inr (best, Q\<lparr>items := remove1 best (items Q)\<rparr>)))"

text \<open>The leaf that \<^verbatim>\<open>build_pq\<close> allocates for symbol \<open>i\<close>.\<close>

definition new_leaf :: "nat \<Rightarrow> 32 word \<Rightarrow> htree" where
  "new_leaf i freq = Node (of_nat i) freq Null Null"

function build_pq_loop :: "pq \<Rightarrow> freqtable_t \<Rightarrow> nat \<Rightarrow> int \<Rightarrow> error + (pq \<times> int)" where
  "build_pq_loop Q table i char_count =
     (if i < NUM_SYMBOLS then
        (let freq = table (of_nat i) in
         if freq > 0 then
           (if pq_full Q then Inl ContractViolation
            else build_pq_loop (pq_add Q (new_leaf i freq)) table (i + 1) (char_count + 1))
         else build_pq_loop Q table (i + 1) char_count)
      else Inr (Q, char_count))"
  by pat_completeness auto
termination
  by (relation "measure (\<lambda>(Q, table, i, char_count). NUM_SYMBOLS - i)") auto

definition build_pq :: "pq \<Rightarrow> freqtable_t \<Rightarrow> error + pq" where
  "build_pq Q table =
     (if \<not> pq_empty Q then Inl ContractViolation
      else case build_pq_loop Q table 0 0 of
        Inl err \<Rightarrow> Inl err
      | Inr (Q', char_count) \<Rightarrow>
          if char_count < 2 then Inl AlphabetTooSmallError else Inr Q')"

text \<open>The root that one round of \<^verbatim>\<open>build_htree\<close> allocates for two removed trees.\<close>

definition new_root :: "htree \<Rightarrow> htree \<Rightarrow> htree" where
  "new_root tree1 tree2 =
     (let f = frequency tree1 + frequency tree2 in
      if frequency tree1 \<le> frequency tree2 then Node 0 f tree1 tree2
      else Node 0 f tree2 tree1)"

lemma pq_best_mem: "pq_best b es = Inr t \<Longrightarrow> t \<in> set (b # es)"
  by (induction es arbitrary: b) (auto split: sum.splits bool.splits if_splits)

lemma pq_rem_length:
  assumes "pq_rem Q = Inr (t, Q')"
  shows "Suc (length (items Q')) = length (items Q)"
proof (cases "items Q")
  case Nil
  with assms show ?thesis by (simp add: pq_rem_def)
next
  case (Cons e es)
  with assms obtain "pq_best e es = Inr t" and Q': "Q' = Q\<lparr>items := remove1 t (items Q)\<rparr>"
    by (auto simp: pq_rem_def split: sum.splits)
  then have "t \<in> set (items Q)" using pq_best_mem Cons by metis
  then show ?thesis by (simp add: Q' length_remove1) (cases "items Q"; simp)
qed

function build_htree_loop :: "pq \<Rightarrow> error + htree" where
  "build_htree_loop Q =
     (if pq_empty Q then Inl AssertionFailure
      else case pq_rem Q of
        Inl err \<Rightarrow> Inl err
      | Inr (tree1, Q1) \<Rightarrow>
          if \<not> is_htree tree1 then Inl ContractViolation
          else if pq_empty Q1 then Inr tree1
          else (case pq_rem Q1 of
            Inl err \<Rightarrow> Inl err
          | Inr (tree2, Q2) \<Rightarrow>
              if \<not> is_htree tree2 then Inl ContractViolation
              else if pq_full Q2 then Inl ContractViolation
              else build_htree_loop (pq_add Q2 (new_root tree1 tree2))))"
  by pat_completeness auto
termination
proof (relation "measure (\<lambda>Q. length (items Q))")
  show "wf (measure (\<lambda>Q. length (items Q)))" by simp
next
  fix Q x2 tree1 Q1 x2a tree2 Q2
  assume "pq_rem Q = Inr x2" "(tree1, Q1) = x2" "pq_rem Q1 = Inr x2a" "(tree2, Q2) = x2a"
  then have "Suc (length (items Q1)) = length (items Q)"
    and "Suc (length (items Q2)) = length (items Q1)"
    using pq_rem_length by metis+
  then show "(pq_add Q2 (new_root tree1 tree2), Q) \<in> measure (\<lambda>Q. length (items Q))"
    by (simp add: pq_add_def)
qed

definition build_htree :: "freqtable_t \<Rightarrow> error + htree" where
  "build_htree table =
     (case build_pq (pq_new NUM_SYMBOLS) table of
        Inl err \<Rightarrow> Inl err
      | Inr Q \<Rightarrow> build_htree_loop Q)"


section \<open>Task 3: decoding a text\<close>

text \<open>
  A NUL-terminated string that the code only reads (\<^verbatim>\<open>bit_t *code\<close>, the cells of
  a code table, the argument of \<^verbatim>\<open>pack\<close>) is the list of its characters before the
  terminator: \<^verbatim>\<open>strlen\<close> is \<open>length\<close>, and reading the terminator is reaching
  the end of the list. A block that the code allocates and writes (\<^verbatim>\<open>xcalloc\<close>) is
  the list of all its cells, zero-filled at first, and every write is checked against
  its length. \<^verbatim>\<open>size_t\<close> counters are natural numbers: they count cells of blocks
  that exist in memory.
\<close>

abbreviation NUL :: char where
  "NUL \<equiv> CHR 0x00"

text \<open>The string held by a block of characters: the cells before the first NUL.\<close>

definition c_str :: "char list \<Rightarrow> bitstring_t" where
  "c_str block = takeWhile (\<lambda>c. c \<noteq> NUL) block"

text \<open>
  The loop of \<^verbatim>\<open>find_len\<close>: the state is the current node and the counter. The
  comparison \<^verbatim>\<open>node != H\<close> of the source is between pointers; here it is between
  trees, which is the same for a tree without sharing: a node below the root is a proper
  subtree of \<open>H\<close> and differs from it.
\<close>

fun find_len_loop :: "htree \<Rightarrow> htree \<Rightarrow> nat \<Rightarrow> bitstring_t \<Rightarrow> error + (htree \<times> nat)" where
  "find_len_loop H node res [] = Inr (node, res)"
| "find_len_loop H node res (c # code) =
     (case node of
        Null \<Rightarrow> Inl NullDereference
      | Node v f l r \<Rightarrow>
          (let node' = (if c = CHR ''0'' then l else r) in
           if is_htree_leaf node' then find_len_loop H H (res + 1) code
           else find_len_loop H node' res code))"

definition find_len :: "htree \<Rightarrow> bitstring_t \<Rightarrow> error + nat" where
  "find_len H code =
     (if \<not> is_htree H then Inl ContractViolation
      else case find_len_loop H H 0 code of
        Inl err \<Rightarrow> Inl err
      | Inr (node, res) \<Rightarrow>
          if node \<noteq> H then Inl TruncatedCodeError else Inr res)"

fun parse_code_loop ::
  "htree \<Rightarrow> htree \<Rightarrow> symbol_t list \<Rightarrow> nat \<Rightarrow> bitstring_t \<Rightarrow> error + (symbol_t list \<times> nat)" where
  "parse_code_loop H node res array_ind [] = Inr (res, array_ind)"
| "parse_code_loop H node res array_ind (c # code) =
     (case node of
        Null \<Rightarrow> Inl NullDereference
      | Node v f l r \<Rightarrow>
          (let node' = (if c = CHR ''0'' then l else r) in
           if is_htree_leaf node' then
             (if array_ind < length res
              then parse_code_loop H H (res[array_ind := val node']) (array_ind + 1) code
              else Inl OutOfBounds)
           else parse_code_loop H node' res array_ind code))"

definition parse_code :: "htree \<Rightarrow> bitstring_t \<Rightarrow> symbol_t list \<Rightarrow> nat \<Rightarrow> error + symbol_t list" where
  "parse_code H code res len =
     (if \<not> is_htree H then Inl ContractViolation
      else case parse_code_loop H H res 0 code of
        Inl err \<Rightarrow> Inl err
      | Inr (res', array_ind) \<Rightarrow>
          if len \<noteq> array_ind then Inl AssertionFailure else Inr res')"

text \<open>The result is the symbol array together with the length stored in \<^verbatim>\<open>*src_len\<close>.\<close>

definition decode_src :: "htree \<Rightarrow> bitstring_t \<Rightarrow> error + (symbol_t list \<times> nat)" where
  "decode_src H code =
     (if \<not> is_htree H then Inl ContractViolation
      else case find_len H code of
        Inl err \<Rightarrow> Inl err
      | Inr len \<Rightarrow>
          (case parse_code H code (replicate len 0) len of
             Inl err \<Rightarrow> Inl err
           | Inr res \<Rightarrow> Inr (res, len)))"

section \<open>Task 4: building code tables from Huffman trees\<close>

text \<open>
  \<^verbatim>\<open>next_path_left\<close> is a fresh block of \<^verbatim>\<open>strlen(prev_string)+2\<close> cells that
  receives \<^verbatim>\<open>prev_string\<close> and then \<^verbatim>\<open>"0"\<close>: the string \<open>prev_string @ ''0''\<close>.
\<close>

fun htree_to_codetable_body :: "htree \<Rightarrow> codetable_t \<Rightarrow> bitstring_t \<Rightarrow> error + codetable_t" where
  "htree_to_codetable_body Null table prev_string = Inl ContractViolation"
| "htree_to_codetable_body (Node v f l r) table prev_string =
     (if \<not> is_htree (Node v f l r) then Inl ContractViolation
      else if is_htree_leaf (Node v f l r) then Inr (table(v := Some prev_string))
      else if \<not> is_htree_interior (Node v f l r) then Inl ContractViolation
      else case htree_to_codetable_body l table (prev_string @ ''0'') of
        Inl err \<Rightarrow> Inl err
      | Inr table' \<Rightarrow> htree_to_codetable_body r table' (prev_string @ ''1''))"

definition htree_to_codetable :: "htree \<Rightarrow> error + codetable_t" where
  "htree_to_codetable H =
     (if \<not> is_htree H then Inl ContractViolation
      else htree_to_codetable_body H (\<lambda>s. None) [])"

section \<open>Task 5: encoding a text\<close>

function get_size_loop :: "codetable_t \<Rightarrow> symbol_t list \<Rightarrow> nat \<Rightarrow> nat \<Rightarrow> nat \<Rightarrow> error + nat" where
  "get_size_loop table src src_len i sz =
     (if i < src_len then
        (if \<not> i < length src then Inl OutOfBounds
         else case table (src ! i) of
           None \<Rightarrow> Inl NullDereference
         | Some bs \<Rightarrow> get_size_loop table src src_len (i + 1) (sz + length bs))
      else Inr sz)"
  by pat_completeness auto
termination
  by (relation "measure (\<lambda>(table, src, src_len, i, sz). src_len - i)") auto

definition get_size :: "codetable_t \<Rightarrow> symbol_t list \<Rightarrow> nat \<Rightarrow> error + nat" where
  "get_size table src src_len = get_size_loop table src src_len 0 0"

text \<open>
  \<^verbatim>\<open>strcpy(dest + off, bs)\<close>: the characters of \<open>bs\<close> and the terminator are written
  into the block \<open>dest\<close> from cell \<open>off\<close> on.
\<close>

definition strcpy :: "char list \<Rightarrow> nat \<Rightarrow> bitstring_t \<Rightarrow> error + char list" where
  "strcpy dest off bs =
     (if off + length bs + 1 \<le> length dest
      then Inr (take off dest @ bs @ [NUL] @ drop (off + length bs + 1) dest)
      else Inl OutOfBounds)"

function populate_bstring_loop ::
  "char list \<Rightarrow> codetable_t \<Rightarrow> symbol_t list \<Rightarrow> nat \<Rightarrow> nat \<Rightarrow> nat \<Rightarrow> error + char list" where
  "populate_bstring_loop target_bs table src src_len curr_ind i =
     (if i < src_len then
        (if \<not> i < length src then Inl OutOfBounds
         else case table (src ! i) of
           None \<Rightarrow> Inl NullDereference
         | Some bs \<Rightarrow>
             (case strcpy target_bs curr_ind bs of
                Inl err \<Rightarrow> Inl err
              | Inr target_bs' \<Rightarrow>
                  populate_bstring_loop target_bs' table src src_len (curr_ind + length bs) (i + 1)))
      else Inr target_bs)"
  by pat_completeness auto
termination
  by (relation "measure (\<lambda>(target_bs, table, src, src_len, curr_ind, i). src_len - i)") auto

definition populate_bstring ::
  "char list \<Rightarrow> codetable_t \<Rightarrow> symbol_t list \<Rightarrow> nat \<Rightarrow> nat \<Rightarrow> error + char list" where
  "populate_bstring target_bs table src src_len curr_ind =
     populate_bstring_loop target_bs table src src_len curr_ind 0"

text \<open>The result is the block that \<^verbatim>\<open>encode_src\<close> returns, of \<open>res_size\<close> cells.\<close>

definition encode_src :: "codetable_t \<Rightarrow> symbol_t list \<Rightarrow> nat \<Rightarrow> error + char list" where
  "encode_src table src src_len =
     (case get_size table src src_len of
        Inl err \<Rightarrow> Inl err
      | Inr n \<Rightarrow>
          (let res_size = n + 1; res = replicate res_size NUL
           in populate_bstring res table src src_len 0))"

section \<open>Task 7: packing and unpacking a bitstring\<close>

definition get_res_len :: "nat \<Rightarrow> nat" where
  "get_res_len bits_len =
     (let step = 8 in
      if bits_len mod step = 0 then bits_len div step else bits_len div step + 1)"

text \<open>
  The inner loop of \<^verbatim>\<open>populate_byte_array\<close>, for the byte that starts at cell
  \<open>start\<close> of \<open>bits\<close>. Cell \<open>length bits\<close> holds the terminator; cells after it are
  outside the string.
\<close>

function pack_byte_loop :: "bitstring_t \<Rightarrow> nat \<Rightarrow> nat \<Rightarrow> 8 word \<Rightarrow> 8 word \<Rightarrow> error + 8 word" where
  "pack_byte_loop bits start j byte placeval =
     (if j < 8 then
        (if length bits < start + j then Inl OutOfBounds
         else if start + j = length bits then Inr byte
         else if bits ! (start + j) = CHR ''1'' then
           (if \<not> placeval > 0 then Inl ContractViolation
            else pack_byte_loop bits start (j + 1) (byte + placeval * 1) (placeval div 2))
         else if bits ! (start + j) \<noteq> CHR ''0'' then Inl ContractViolation
         else if \<not> placeval > 0 then Inl ContractViolation
         else pack_byte_loop bits start (j + 1) byte (placeval div 2))
      else Inr byte)"
  by pat_completeness auto
termination
  by (relation "measure (\<lambda>(bits, start, j, byte, placeval). 8 - j)") auto

function populate_byte_array_loop ::
  "8 word list \<Rightarrow> nat \<Rightarrow> bitstring_t \<Rightarrow> nat \<Rightarrow> error + 8 word list" where
  "populate_byte_array_loop bytes bytes_len bits i =
     (if i < bytes_len then
        (if \<not> i * 8 < length bits then Inl ContractViolation
         else case pack_byte_loop bits (i * 8) 0 0 128 of
           Inl err \<Rightarrow> Inl err
         | Inr byte \<Rightarrow>
             if i < length bytes
             then populate_byte_array_loop (bytes[i := byte]) bytes_len bits (i + 1)
             else Inl OutOfBounds)
      else Inr bytes)"
  by pat_completeness auto
termination
  by (relation "measure (\<lambda>(bytes, bytes_len, bits, i). bytes_len - i)") auto

definition populate_byte_array :: "8 word list \<Rightarrow> nat \<Rightarrow> bitstring_t \<Rightarrow> error + 8 word list" where
  "populate_byte_array bytes bytes_len bits = populate_byte_array_loop bytes bytes_len bits 0"

definition pack :: "bitstring_t \<Rightarrow> error + 8 word list" where
  "pack bits =
     (let len = length bits; res_len = get_res_len len; res = replicate res_len 0
      in populate_byte_array res res_len bits)"

function byte2bit_loop :: "char list \<Rightarrow> nat \<Rightarrow> 8 word \<Rightarrow> nat \<Rightarrow> error + char list" where
  "byte2bit_loop block start byte i =
     (if i < 8 then
        (let shift_place = 8 - i - 1;
             digit = drop_bit shift_place byte AND 0x01
         in if \<not> (digit = 1 \<or> digit = 0) then Inl ContractViolation
            else if \<not> start + i < length block then Inl OutOfBounds
            else if digit = 1
              then byte2bit_loop (block[start + i := CHR ''1'']) start byte (i + 1)
              else byte2bit_loop (block[start + i := CHR ''0'']) start byte (i + 1))
      else Inr block)"
  by pat_completeness auto
termination
  by (relation "measure (\<lambda>(block, start, byte, i). 8 - i)") auto

definition byte2bit :: "char list \<Rightarrow> nat \<Rightarrow> 8 word \<Rightarrow> error + char list" where
  "byte2bit block start byte = byte2bit_loop block start byte 0"

function unpack_loop :: "char list \<Rightarrow> 8 word list \<Rightarrow> nat \<Rightarrow> nat \<Rightarrow> error + char list" where
  "unpack_loop bits c len i =
     (if i < len then
        (if \<not> i < length c then Inl OutOfBounds
         else case byte2bit bits (8 * i) (c ! i) of
           Inl err \<Rightarrow> Inl err
         | Inr bits' \<Rightarrow> unpack_loop bits' c len (i + 1))
      else Inr bits)"
  by pat_completeness auto
termination
  by (relation "measure (\<lambda>(bits, c, len, i). len - i)") auto

text \<open>The result is the block of \<open>8 * len + 1\<close> cells that \<^verbatim>\<open>unpack\<close> returns.\<close>

definition unpack :: "8 word list \<Rightarrow> nat \<Rightarrow> error + char list" where
  "unpack c len =
     (let step = 8; bits = replicate (step * len + 1) NUL
      in unpack_loop bits c len 0)"

section \<open>Task 2, continued: freeing a tree\<close>

text \<open>
  \<^verbatim>\<open>free_htree\<close> releases nodes, so here the nodes are blocks of a heap: a pointer is
  \<open>None\<close> for \<^verbatim>\<open>NULL\<close> or the address of a block, the heap maps the addresses of
  the allocated blocks to their contents, \<^verbatim>\<open>free\<close> removes a block, and a field read
  through a pointer whose block is not allocated is an error value. The recursion
  follows pointers of the heap, so it is bounded by fuel. The contracts are compiled
  only in debug builds; \<open>contracts\<close> says whether they are.
\<close>

type_synonym ptr = "nat option"

record htree_node =
  node_value :: symbol_t
  node_frequency :: "32 word"
  node_left :: ptr
  node_right :: ptr

type_synonym heap = "nat \<Rightarrow> htree_node option"

datatype 'a result = Ok 'a | Fault error | OutOfFuel

fun then_do :: "'a result \<Rightarrow> ('a \<Rightarrow> 'b result) \<Rightarrow> 'b result" where
  "then_do (Ok x) f = f x"
| "then_do (Fault e) f = Fault e"
| "then_do OutOfFuel f = OutOfFuel"

fun load :: "heap \<Rightarrow> ptr \<Rightarrow> htree_node result" where
  "load h None = Fault NullDereference"
| "load h (Some a) = (case h a of None \<Rightarrow> Fault UseAfterFree | Some node \<Rightarrow> Ok node)"

fun free :: "heap \<Rightarrow> ptr \<Rightarrow> heap result" where
  "free h None = Ok h"
| "free h (Some a) = (case h a of None \<Rightarrow> Fault InvalidFree | Some node \<Rightarrow> Ok (h(a := None)))"

definition is_htree_leaf_at :: "heap \<Rightarrow> ptr \<Rightarrow> bool result" where
  "is_htree_leaf_at h H =
     (if H = None then Ok False
      else then_do (load h H) (\<lambda>node.
        if node_frequency node \<le> 0 then Ok False
        else Ok (node_left node = None \<and> node_right node = None)))"

fun is_htree_at :: "nat \<Rightarrow> heap \<Rightarrow> ptr \<Rightarrow> bool result"
  and is_htree_interior_at :: "nat \<Rightarrow> heap \<Rightarrow> ptr \<Rightarrow> bool result" where
  "is_htree_at 0 h H = OutOfFuel"
| "is_htree_at (Suc n) h H =
     (if H = None then Ok False
      else then_do (is_htree_leaf_at h H) (\<lambda>leaf.
        if leaf then Ok True else is_htree_interior_at n h H))"
| "is_htree_interior_at 0 h H = OutOfFuel"
| "is_htree_interior_at (Suc n) h H =
     (if H = None then Ok False
      else then_do (load h H) (\<lambda>node.
           then_do (is_htree_at n h (node_left node)) (\<lambda>left_ok.
             if \<not> left_ok then Ok False
             else then_do (is_htree_at n h (node_right node)) (\<lambda>right_ok.
               if \<not> right_ok then Ok False
               else then_do (load h (node_left node)) (\<lambda>l.
                    then_do (load h (node_right node)) (\<lambda>r.
                      Ok (node_frequency node = node_frequency l + node_frequency r)))))))"

fun free_htree :: "bool \<Rightarrow> nat \<Rightarrow> heap \<Rightarrow> ptr \<Rightarrow> heap result" where
  "free_htree contracts 0 h tree = OutOfFuel"
| "free_htree contracts (Suc n) h tree =
     then_do (if contracts then is_htree_at n h tree else Ok True) (\<lambda>requires.
       if \<not> requires then Fault ContractViolation
       else then_do (is_htree_leaf_at h tree) (\<lambda>leaf.
            then_do (if leaf then free h tree else Ok h) (\<lambda>h1.
            then_do (if contracts then is_htree_interior_at n h1 tree else Ok True) (\<lambda>interior.
              if \<not> interior then Fault ContractViolation
              else then_do (load h1 tree) (\<lambda>node.
                   then_do (free_htree contracts n h1 (node_left node)) (\<lambda>h2.
                   then_do (load h2 tree) (\<lambda>node'.
                   then_do (free_htree contracts n h2 (node_right node')) (\<lambda>h3.
                     free h3 tree))))))))"

section \<open>Notions used to state the properties\<close>

text \<open>The symbols at the leaves of a tree, from left to right.\<close>

fun leaves :: "htree \<Rightarrow> symbol_t list" where
  "leaves Null = []"
| "leaves (Node v f l r) =
     (if is_htree_leaf (Node v f l r) then [v] else leaves l @ leaves r)"

text \<open>
  The indices from \<open>i\<close> on whose symbol has a nonzero frequency, in the order of the
  loop of \<^verbatim>\<open>build_pq\<close>, and the symbols with a nonzero frequency.
\<close>

definition nonzero_from :: "freqtable_t \<Rightarrow> nat \<Rightarrow> nat list" where
  "nonzero_from table i = filter (\<lambda>k. table (of_nat k) \<noteq> 0) [i..<NUM_SYMBOLS]"

definition nonzero_symbols :: "freqtable_t \<Rightarrow> symbol_t list" where
  "nonzero_symbols table = map of_nat (nonzero_from table 0)"

text \<open>The leaf symbols of all the trees of a queue, with multiplicity.\<close>

definition queue_leaves :: "htree list \<Rightarrow> symbol_t multiset" where
  "queue_leaves ts = sum_list (map (\<lambda>t. mset (leaves t)) ts)"

text \<open>
  The node reached from a tree by a path: \<open>CHR ''0''\<close> descends to the left child,
  \<open>CHR ''1''\<close> to the right child, no other character is a direction, and nothing is
  below \<open>Null\<close>.
\<close>

fun subtree_at :: "htree \<Rightarrow> string \<Rightarrow> htree option" where
  "subtree_at t [] = Some t"
| "subtree_at Null (c # cs) = None"
| "subtree_at (Node v f l r) (c # cs) =
     (if c = CHR ''0'' then subtree_at l cs
      else if c = CHR ''1'' then subtree_at r cs
      else None)"

text \<open>\<open>leaf_at t p s\<close>: the path \<open>p\<close> leads from \<open>t\<close> to a leaf that holds \<open>s\<close>.\<close>

definition leaf_at :: "htree \<Rightarrow> string \<Rightarrow> symbol_t \<Rightarrow> bool" where
  "leaf_at t p s = (case subtree_at t p of
       None \<Rightarrow> False
     | Some n \<Rightarrow> is_htree_leaf n \<and> val n = s)"

text \<open>The leaves of a tree from left to right, each with its path from the root.\<close>

fun paths :: "htree \<Rightarrow> (symbol_t \<times> string) list" where
  "paths Null = []"
| "paths (Node v f l r) =
     (if is_htree_leaf (Node v f l r) then [(v, [])]
      else map (\<lambda>(s, q). (s, CHR ''0'' # q)) (paths l)
         @ map (\<lambda>(s, q). (s, CHR ''1'' # q)) (paths r))"

text \<open>Cell \<open>k\<close> of a bit-string holds the character \<open>CHR ''1''\<close>.\<close>

definition bit_set :: "bitstring_t \<Rightarrow> nat \<Rightarrow> bool" where
  "bit_set bits k = (k < length bits \<and> bits ! k = CHR ''1'')"

text \<open>The character that \<^verbatim>\<open>byte2bit\<close> writes for position \<open>k\<close> of a byte.\<close>

definition bit_char :: "8 word \<Rightarrow> nat \<Rightarrow> char" where
  "bit_char byte k = (if bit byte (7 - k) then CHR ''1'' else CHR ''0'')"

text \<open>A heap that holds one tree, a single leaf at address 0.\<close>

definition leaf_heap :: heap where
  "leaf_heap = (\<lambda>a. None)(0 := Some \<lparr>node_value = 97, node_frequency = 5,
                                        node_left = None, node_right = None\<rparr>)"

section \<open>The tree builder\<close>

lemma is_htree_leaf_imp: "is_htree_leaf t \<Longrightarrow> is_htree t"
  by (cases t) (simp_all del: is_htree_leaf.simps(2))

lemma is_htree_interior_imp: "is_htree_interior t \<Longrightarrow> is_htree t"
  by (cases t) (simp_all del: is_htree_interior.simps(2) is_htree_leaf.simps(2))

lemma is_htree_not_Null: "is_htree t \<Longrightarrow> t \<noteq> Null"
  by auto

lemma pq_best_ok:
  "is_htree b \<Longrightarrow> \<forall>e\<in>set es. is_htree e \<Longrightarrow> \<exists>t. pq_best b es = Inr t"
  by (induction es arbitrary: b) (auto split: sum.splits bool.splits)

lemma pq_rem_ok:
  assumes "items Q \<noteq> []" and "\<forall>e\<in>set (items Q). is_htree e"
  shows "\<exists>t. t \<in> set (items Q) \<and> pq_rem Q = Inr (t, Q\<lparr>items := remove1 t (items Q)\<rparr>)"
proof -
  from assms obtain e es where Q: "items Q = e # es" by (cases "items Q") auto
  with assms have "is_htree e" "\<forall>x\<in>set es. is_htree x" by auto
  then obtain t where t: "pq_best e es = Inr t" using pq_best_ok by blast
  then have "t \<in> set (items Q)" using pq_best_mem Q by metis
  moreover have "pq_rem Q = Inr (t, Q\<lparr>items := remove1 t (items Q)\<rparr>)"
    using t Q by (simp add: pq_rem_def)
  ultimately show ?thesis by blast
qed

lemma nonzero_from_step:
  "i < NUM_SYMBOLS \<Longrightarrow> nonzero_from table i =
     (if table (of_nat i) \<noteq> 0 then [i] else []) @ nonzero_from table (Suc i)"
  by (simp add: nonzero_from_def upt_conv_Cons)

lemma nonzero_from_end: "\<not> i < NUM_SYMBOLS \<Longrightarrow> nonzero_from table i = []"
  by (simp add: nonzero_from_def)

lemma build_pq_loop_eq:
  "length (items Q) + (NUM_SYMBOLS - i) \<le> capacity Q \<Longrightarrow>
   build_pq_loop Q table i cc =
     Inr (Q\<lparr>items := items Q @ map (\<lambda>k. new_leaf k (table (of_nat k))) (nonzero_from table i)\<rparr>,
          cc + int (length (nonzero_from table i)))"
proof (induction Q table i cc rule: build_pq_loop.induct)
  case (1 Q table i cc)
  show ?case
  proof (cases "i < NUM_SYMBOLS")
    case False
    then show ?thesis by (simp add: nonzero_from_end)
  next
    case True
    note lt = True
    show ?thesis
    proof (cases "table (of_nat i) > 0")
      case True
      have nf: "\<not> pq_full Q" using "1.prems" lt by (simp add: pq_full_def)
      have "length (items (pq_add Q (new_leaf i (table (of_nat i))))) + (NUM_SYMBOLS - (i + 1)) \<le> capacity (pq_add Q (new_leaf i (table (of_nat i))))"
        using "1.prems" lt by (simp add: pq_add_def)
      from "1.IH"(1)[OF lt refl True nf this] True lt nf
      show ?thesis
        by (subst build_pq_loop.simps) (simp add: nonzero_from_step[OF lt] pq_add_def word_greater_zero_iff)
    next
      case False
      have "length (items Q) + (NUM_SYMBOLS - (i + 1)) \<le> capacity Q"
        using "1.prems" by simp
      from "1.IH"(2)[OF lt refl False this] False lt
      show ?thesis
        by (subst build_pq_loop.simps) (simp add: nonzero_from_step[OF lt] word_greater_zero_iff)
    qed
  qed
qed

lemma of_nat_symbol_inj: "inj_on (of_nat :: nat \<Rightarrow> symbol_t) {0..<NUM_SYMBOLS}"
proof (rule inj_onI)
  fix x y :: nat
  assume "x \<in> {0..<NUM_SYMBOLS}" "y \<in> {0..<NUM_SYMBOLS}"
    and eq: "(of_nat x :: symbol_t) = of_nat y"
  then have "x < 2 ^ LENGTH(8)" "y < 2 ^ LENGTH(8)" by (simp_all add: NUM_SYMBOLS_def)
  then have "unat (of_nat x :: symbol_t) = x" "unat (of_nat y :: symbol_t) = y"
    by (simp_all only: of_nat_inverse[OF refl])
  with eq show "x = y" by metis
qed

lemma of_nat_symbol_surj: "(of_nat :: nat \<Rightarrow> symbol_t) ` {0..<NUM_SYMBOLS} = UNIV"
proof -
  have "s \<in> of_nat ` {0..<NUM_SYMBOLS}" for s :: symbol_t
  proof -
    have "unat s < 2 ^ LENGTH(8)" by (rule unsigned_less)
    then have "unat s \<in> {0..<NUM_SYMBOLS}" by (simp add: NUM_SYMBOLS_def)
    moreover have "s = of_nat (unat s)" by simp
    ultimately show ?thesis by (rule rev_image_eqI)
  qed
  then show ?thesis by blast
qed

lemma nonzero_symbols_distinct: "distinct (nonzero_symbols table)"
proof -
  have "inj_on (of_nat :: nat \<Rightarrow> symbol_t) (set (nonzero_from table 0))"
    by (rule inj_on_subset[OF of_nat_symbol_inj]) (auto simp: nonzero_from_def)
  then show ?thesis
    by (simp add: nonzero_symbols_def distinct_map nonzero_from_def)
qed

lemma nonzero_symbols_set: "set (nonzero_symbols table) = {s. table s \<noteq> 0}"
proof -
  have "set (nonzero_symbols table) = {s \<in> of_nat ` {0..<NUM_SYMBOLS}. table s \<noteq> 0}"
    by (auto simp: nonzero_symbols_def nonzero_from_def)
  then show ?thesis by (simp add: of_nat_symbol_surj)
qed

lemma nonzero_symbols_length: "length (nonzero_symbols table) = card {s. table s \<noteq> 0}"
  using distinct_card[OF nonzero_symbols_distinct, of table]
  by (simp add: nonzero_symbols_set)

lemma build_pq_eq:
  "build_pq (pq_new NUM_SYMBOLS) table =
     (if card {s. table s \<noteq> 0} < 2 then Inl AlphabetTooSmallError
      else Inr \<lparr>capacity = NUM_SYMBOLS,
                items = map (\<lambda>k. new_leaf k (table (of_nat k))) (nonzero_from table 0)\<rparr>)"
proof -
  have "length (items (pq_new NUM_SYMBOLS)) + (NUM_SYMBOLS - 0) \<le> capacity (pq_new NUM_SYMBOLS)"
    by (simp add: pq_new_def)
  note build_pq_loop_eq[OF this, of table 0]
  moreover have "length (nonzero_from table 0) = card {s. table s \<noteq> 0}"
    using nonzero_symbols_length[of table] by (simp add: nonzero_symbols_def)
  ultimately show ?thesis
    by (simp add: build_pq_def pq_empty_def pq_new_def)
qed

lemma queue_leaves_remove1:
  "t \<in> set ts \<Longrightarrow> queue_leaves ts = mset (leaves t) + queue_leaves (remove1 t ts)"
  by (induction ts) (auto simp: queue_leaves_def)

lemma queue_leaves_snoc: "queue_leaves (ts @ [t]) = queue_leaves ts + mset (leaves t)"
  by (simp add: queue_leaves_def)

lemma new_root_interior:
  assumes "is_htree t1" "is_htree t2"
  shows "is_htree_interior (new_root t1 t2)"
  using assms by (simp add: new_root_def Let_def add.commute)

lemma new_root_leaves:
  assumes "is_htree t1" "is_htree t2"
  shows "mset (leaves (new_root t1 t2)) = mset (leaves t1) + mset (leaves t2)"
proof -
  have "t1 \<noteq> Null" "t2 \<noteq> Null" using assms by auto
  then show ?thesis by (simp add: new_root_def Let_def)
qed

lemma build_htree_loop_ok:
  assumes "items Q \<noteq> []" and "\<forall>t\<in>set (items Q). is_htree t"
    and "length (items Q) \<le> capacity Q"
  shows "\<exists>t. build_htree_loop Q = Inr t \<and> is_htree t
           \<and> mset (leaves t) = queue_leaves (items Q)
           \<and> (2 \<le> length (items Q) \<longrightarrow> is_htree_interior t)
           \<and> (\<forall>t0. items Q = [t0] \<longrightarrow> t = t0)"
  using assms
proof (induction "length (items Q)" arbitrary: Q rule: less_induct)
  case less
  define Q1 where "Q1 = (\<lambda>t. Q\<lparr>items := remove1 t (items Q)\<rparr>)"
  from pq_rem_ok[OF less.prems(1,2)] obtain t1 where
    t1: "t1 \<in> set (items Q)" and rem1: "pq_rem Q = Inr (t1, Q1 t1)"
    by (auto simp: Q1_def)
  have ht1: "is_htree t1" using t1 less.prems(2) by blast
  have ne: "\<not> pq_empty Q" using less.prems(1) by (simp add: pq_empty_def)
  have ql1: "queue_leaves (items Q) = mset (leaves t1) + queue_leaves (items (Q1 t1))"
    using queue_leaves_remove1[OF t1] by (simp add: Q1_def)
  have len1: "Suc (length (items (Q1 t1))) = length (items Q)"
    using pq_rem_length[OF rem1] .
  show ?case
  proof (cases "items (Q1 t1) = []")
    case True
    then have e1: "pq_empty (Q1 t1)" by (simp add: pq_empty_def)
    have "build_htree_loop Q = Inr t1"
      using ne rem1 ht1 e1 by (subst build_htree_loop.simps) simp
    moreover have "mset (leaves t1) = queue_leaves (items Q)"
      using ql1 True by (simp add: queue_leaves_def)
    moreover have "\<not> 2 \<le> length (items Q)" using len1 True by simp
    moreover have "\<forall>t0. items Q = [t0] \<longrightarrow> t1 = t0" using t1 by auto
    ultimately show ?thesis using ht1 by simp
  next
    case False
    then have ne1: "\<not> pq_empty (Q1 t1)" by (simp add: pq_empty_def)
    have all1: "\<forall>t\<in>set (items (Q1 t1)). is_htree t"
      using less.prems(2) by (auto simp: Q1_def dest: notin_set_remove1)
    define Q2 where "Q2 = (\<lambda>t. (Q1 t1)\<lparr>items := remove1 t (items (Q1 t1))\<rparr>)"
    from pq_rem_ok[OF False all1] obtain t2 where
      t2: "t2 \<in> set (items (Q1 t1))" and rem2: "pq_rem (Q1 t1) = Inr (t2, Q2 t2)"
      by (auto simp: Q2_def)
    have ht2: "is_htree t2" using t2 all1 by blast
    have len2: "Suc (length (items (Q2 t2))) = length (items (Q1 t1))"
      using pq_rem_length[OF rem2] .
    have cap2: "capacity (Q2 t2) = capacity Q" by (simp add: Q2_def Q1_def)
    have nf: "\<not> pq_full (Q2 t2)"
      using len1 len2 less.prems(3) cap2 by (simp add: pq_full_def)
    have ql2: "queue_leaves (items (Q1 t1)) = mset (leaves t2) + queue_leaves (items (Q2 t2))"
      using queue_leaves_remove1[OF t2] by (simp add: Q2_def)
    define Q3 where "Q3 = pq_add (Q2 t2) (new_root t1 t2)"
    have items3: "items Q3 = items (Q2 t2) @ [new_root t1 t2]"
      by (simp add: Q3_def pq_add_def)
    have root: "is_htree_interior (new_root t1 t2)"
      using new_root_interior[OF ht1 ht2] .
    have all2: "\<forall>t\<in>set (items (Q2 t2)). is_htree t"
      using all1 by (auto simp: Q2_def dest: notin_set_remove1)
    have step: "build_htree_loop Q = build_htree_loop Q3"
      using ne rem1 ht1 ne1 rem2 ht2 nf
      by (subst build_htree_loop.simps) (simp add: Q3_def)
    have "length (items Q3) < length (items Q)" using items3 len1 len2 by simp
    moreover have "items Q3 \<noteq> []" using items3 by simp
    moreover have "\<forall>t\<in>set (items Q3). is_htree t"
      using all2 root items3 by (auto intro: is_htree_interior_imp)
    moreover have "length (items Q3) \<le> capacity Q3"
      using items3 len1 len2 less.prems(3) cap2 by (simp add: Q3_def pq_add_def)
    ultimately obtain t where
      t: "build_htree_loop Q3 = Inr t" "is_htree t"
         "mset (leaves t) = queue_leaves (items Q3)"
         "2 \<le> length (items Q3) \<longrightarrow> is_htree_interior t"
         "\<forall>t0. items Q3 = [t0] \<longrightarrow> t = t0"
      using less.hyps[of Q3] by blast
    have "mset (leaves t) = queue_leaves (items Q)"
      using t(3) items3 ql1 ql2 new_root_leaves[OF ht1 ht2]
      by (simp add: queue_leaves_snoc)
    moreover have "is_htree_interior t"
    proof (cases "items (Q2 t2) = []")
      case True
      then have "items Q3 = [new_root t1 t2]" using items3 by simp
      with t(5) root show ?thesis by simp
    next
      case False
      then have "2 \<le> length (items Q3)"
        using items3 by (cases "items (Q2 t2)") simp_all
      with t(4) show ?thesis by simp
    qed
    moreover have "\<not> (\<exists>t0. items Q = [t0])" using len1 len2 by auto
    ultimately show ?thesis using step t(1,2) by simp
  qed
qed

lemma new_leaf_is_htree: "f \<noteq> 0 \<Longrightarrow> is_htree (new_leaf k f)"
  by (simp add: new_leaf_def word_greater_zero_iff)

lemma new_leaf_leaves: "f \<noteq> 0 \<Longrightarrow> leaves (new_leaf k f) = [of_nat k]"
  by (simp add: new_leaf_def)

lemma queue_leaves_new_leaves:
  "\<forall>k\<in>set ks. table (of_nat k) \<noteq> 0 \<Longrightarrow>
   queue_leaves (map (\<lambda>k. new_leaf k (table (of_nat k))) ks) = mset (map of_nat ks)"
  by (induction ks) (simp_all add: queue_leaves_def new_leaf_leaves)

lemma nonzero_from_length: "length (nonzero_from table 0) \<le> NUM_SYMBOLS"
  using length_filter_le[of "\<lambda>k. table (of_nat k) \<noteq> 0" "[0..<NUM_SYMBOLS]"]
  by (simp add: nonzero_from_def)

lemma build_htree_ok:
  assumes "2 \<le> card {s. table s \<noteq> 0}"
  shows "\<exists>t. build_htree table = Inr t \<and> is_htree t \<and> is_htree_interior t
           \<and> mset (leaves t) = mset (nonzero_symbols table)"
proof -
  define Q where "Q = \<lparr>capacity = NUM_SYMBOLS,
    items = map (\<lambda>k. new_leaf k (table (of_nat k))) (nonzero_from table 0)\<rparr>"
  have bq: "build_pq (pq_new NUM_SYMBOLS) table = Inr Q"
    using assms by (simp add: build_pq_eq Q_def)
  have len: "length (items Q) = card {s. table s \<noteq> 0}"
    using nonzero_symbols_length[of table] by (simp add: Q_def nonzero_symbols_def)
  have nz: "\<forall>k\<in>set (nonzero_from table 0). table (of_nat k) \<noteq> 0"
    by (simp add: nonzero_from_def)
  have "items Q \<noteq> []" using len assms by auto
  moreover have "\<forall>t\<in>set (items Q). is_htree t"
    using nz by (auto simp: Q_def new_leaf_is_htree)
  moreover have "length (items Q) \<le> capacity Q"
    using nonzero_from_length[of table] by (simp add: Q_def)
  ultimately obtain t where t: "build_htree_loop Q = Inr t" "is_htree t"
      "mset (leaves t) = queue_leaves (items Q)"
      "2 \<le> length (items Q) \<longrightarrow> is_htree_interior t"
    using build_htree_loop_ok[of Q] by blast
  have "queue_leaves (items Q) = mset (nonzero_symbols table)"
    using queue_leaves_new_leaves[OF nz] by (simp add: Q_def nonzero_symbols_def)
  with t len assms bq show ?thesis by (simp add: build_htree_def)
qed

lemma two_nonzero_card:
  assumes "a \<noteq> b" "table a \<noteq> 0" "table b \<noteq> 0"
  shows "2 \<le> card {s :: symbol_t. table s \<noteq> (0 :: 32 word)}"
proof -
  have "card {a, b} \<le> card {s. table s \<noteq> 0}"
    by (rule card_mono) (use assms in auto)
  with assms(1) show ?thesis by simp
qed

lemma subtree_at_Null: "subtree_at Null p = Some n \<Longrightarrow> n = Null"
  by (cases p) simp_all

lemma is_htree_subtree:
  "is_htree t \<Longrightarrow> subtree_at t p = Some (Node v f l r) \<Longrightarrow> is_htree (Node v f l r)"
proof (induction p arbitrary: t)
  case Nil
  then show ?case by simp
next
  case (Cons c cs)
  from Cons.prems(1) obtain v' f' l' r' where t: "t = Node v' f' l' r'"
    by (cases t) auto
  show ?case
  proof (cases "is_htree_leaf t")
    case True
    then have "l' = Null" "r' = Null" using t by (auto split: if_splits)
    with Cons.prems(2) t show ?thesis
      by (auto split: if_splits dest: subtree_at_Null)
  next
    case False
    then have "is_htree_interior t"
      using Cons.prems(1) t by (simp del: is_htree_leaf.simps(2) is_htree_interior.simps(2))
    then have "is_htree l'" "is_htree r'" using t by (auto split: if_splits)
    with Cons.prems(2) t Cons.IH[of l'] Cons.IH[of r'] show ?thesis
      by (auto split: if_splits)
  qed
qed

lemma is_htree_node:
  assumes "is_htree (Node v f l r)"
  shows "(l = Null \<and> r = Null \<and> 0 < f) \<or> (l \<noteq> Null \<and> r \<noteq> Null \<and> f = frequency l + frequency r)"
  using assms by (auto simp: word_greater_zero_iff split: if_splits)

text \<open>
  Claim C2. For a frequency table in which at least two symbols have a nonzero
  frequency, \<^verbatim>\<open>build_htree\<close> returns a tree and the tree satisfies \<^verbatim>\<open>is_htree\<close>:
  every node of the tree has either no child and a strictly positive frequency, or two
  children and as frequency the sum of their frequencies (the sum of the code, on
  \<^verbatim>\<open>unsigned int\<close>). The leaves of the tree are exactly the symbols with a nonzero
  frequency, each at one leaf.
\<close>

theorem build_htree_well_formed:
  assumes "a \<noteq> b" and "table a \<noteq> 0" and "table b \<noteq> 0"
  shows "\<exists>t. build_htree table = Inr t \<and> is_htree t
           \<and> (\<forall>p v f l r. subtree_at t p = Some (Node v f l r) \<longrightarrow>
                 (l = Null \<and> r = Null \<and> 0 < f)
               \<or> (l \<noteq> Null \<and> r \<noteq> Null \<and> f = frequency l + frequency r))
           \<and> set (leaves t) = {s. table s \<noteq> 0} \<and> distinct (leaves t)"
proof -
  from build_htree_ok[OF two_nonzero_card[OF assms]] obtain t where
    t: "build_htree table = Inr t" "is_htree t"
       "mset (leaves t) = mset (nonzero_symbols table)"
    by blast
  have "set (leaves t) = {s. table s \<noteq> 0}"
    using mset_eq_setD[OF t(3)] by (simp add: nonzero_symbols_set)
  moreover have "distinct (leaves t)"
    using t(3) nonzero_symbols_distinct[of table] by (metis mset_eq_imp_distinct_iff)
  moreover have "(l = Null \<and> r = Null \<and> 0 < f)
               \<or> (l \<noteq> Null \<and> r \<noteq> Null \<and> f = frequency l + frequency r)"
    if "subtree_at t p = Some (Node v f l r)" for p v f l r
    using is_htree_node[OF is_htree_subtree[OF t(2) that]] .
  ultimately show ?thesis using t(1,2) by blast
qed

theorem build_htree_well_formed_witness:
  "\<exists>t. build_htree ((\<lambda>s. 0)(97 := 3, 98 := 2, 99 := 1)) = Inr t \<and> is_htree t
     \<and> set (leaves t) = {97, 98, 99} \<and> distinct (leaves t)"
proof -
  have "{s. ((\<lambda>s. 0)(97 := 3, 98 := 2, 99 := 1 :: 32 word)) (s :: symbol_t) \<noteq> 0} = {97, 98, 99}"
    by auto
  moreover have "(97 :: symbol_t) \<noteq> 98"
    and "((\<lambda>s. 0)(97 := 3, 98 := 2, 99 := 1 :: 32 word)) (97 :: symbol_t) \<noteq> 0"
    and "((\<lambda>s. 0)(97 := 3, 98 := 2, 99 := 1 :: 32 word)) (98 :: symbol_t) \<noteq> 0"
    by simp_all
  from build_htree_well_formed[OF this] obtain t where
    "build_htree ((\<lambda>s. 0)(97 := 3, 98 := 2, 99 := 1)) = Inr t" "is_htree t"
    "set (leaves t) = {s. ((\<lambda>s. 0)(97 := 3, 98 := 2, 99 := 1 :: 32 word)) s \<noteq> 0}"
    "distinct (leaves t)"
    by blast
  ultimately show ?thesis by auto
qed

text \<open>
  Claim C5. \<^verbatim>\<open>build_htree\<close> fails with the alphabet-too-small error exactly when
  fewer than two symbols have a nonzero frequency. The result is then the error alone:
  no tree is returned. With two or more such symbols this error is never raised.
\<close>

theorem build_htree_alphabet_too_small:
  "(build_htree table = Inl AlphabetTooSmallError) = (card {s. table s \<noteq> 0} < 2)"
proof (cases "card {s. table s \<noteq> 0} < 2")
  case True
  then show ?thesis by (simp add: build_htree_def build_pq_eq)
next
  case False
  then have "2 \<le> card {s. table s \<noteq> 0}" by simp
  from build_htree_ok[OF this] False show ?thesis by auto
qed

theorem build_htree_alphabet_too_small_witness:
  "build_htree ((\<lambda>s. 0)(97 := 5)) = Inl AlphabetTooSmallError
   \<and> build_htree ((\<lambda>s. 0)(97 := 5, 98 := 1)) \<noteq> Inl AlphabetTooSmallError"
proof -
  have "{s. ((\<lambda>s. 0)(97 := 5 :: 32 word)) (s :: symbol_t) \<noteq> 0} = {97}"
    by auto
  moreover have "{s. ((\<lambda>s. 0)(97 := 5, 98 := 1 :: 32 word)) (s :: symbol_t) \<noteq> 0} = {97, 98}"
    by auto
  ultimately show ?thesis
    using build_htree_alphabet_too_small[of "(\<lambda>s. 0)(97 := 5)"]
      build_htree_alphabet_too_small[of "(\<lambda>s. 0)(97 := 5, 98 := 1)"]
    by simp
qed

section \<open>The code table\<close>

lemma paths_fst: "map fst (paths t) = leaves t"
  by (induction t) (auto simp: case_prod_unfold comp_def)

lemma subtree_at_leaf:
  "is_htree_leaf t \<Longrightarrow> subtree_at t p = Some n \<Longrightarrow> is_htree_leaf n \<Longrightarrow> p = []"
  by (cases t; cases p) (auto split: if_splits dest: subtree_at_Null)

lemma paths_leaf_at:
  "is_htree t \<Longrightarrow> ((s, p) \<in> set (paths t)) = leaf_at t p s"
proof (induction t arbitrary: p)
  case Null
  then show ?case by simp
next
  case (Node v f l r)
  show ?case
  proof (cases "is_htree_leaf (Node v f l r)")
    case True
    then show ?thesis
      using subtree_at_leaf[OF True, of p]
      by (auto simp: leaf_at_def split: option.splits)
  next
    case False
    with Node.prems have wf: "is_htree l" "is_htree r"
      by (auto simp del: is_htree_leaf.simps split: if_splits)
    have nl: "\<not> is_htree_leaf (Node v f l r)" by (rule False)
    show ?thesis
    proof (cases p)
      case Nil
      then show ?thesis using nl by (auto simp: leaf_at_def simp del: is_htree_leaf.simps)
    next
      case (Cons c cs)
      have "leaf_at (Node v f l r) (c # cs) s =
            (if c = CHR ''0'' then leaf_at l cs s else if c = CHR ''1'' then leaf_at r cs s else False)"
        by (simp add: leaf_at_def)
      then show ?thesis
        using Node.IH(1)[OF wf(1), of cs] Node.IH(2)[OF wf(2), of cs] nl Cons
        by (auto simp del: is_htree_leaf.simps)
    qed
  qed
qed

lemma paths_binary_char:
  "(s, p) \<in> set (paths t) \<Longrightarrow> c \<in> set p \<Longrightarrow> c = CHR ''0'' \<or> c = CHR ''1''"
proof (induction t arbitrary: p)
  case Null
  then show ?case by simp
next
  case (Node v f l r)
  show ?case
  proof (cases "is_htree_leaf (Node v f l r)")
    case True
    with Node.prems show ?thesis by (simp del: is_htree_leaf.simps)
  next
    case False
    with Node.prems consider q where "p = CHR ''0'' # q" "(s, q) \<in> set (paths l)"
      | q where "p = CHR ''1'' # q" "(s, q) \<in> set (paths r)"
      by (auto simp del: is_htree_leaf.simps)
    then show ?thesis
    proof cases
      case 1
      with Node.prems(2) Node.IH(1)[of q] show ?thesis by auto
    next
      case 2
      with Node.prems(2) Node.IH(2)[of q] show ?thesis by auto
    qed
  qed
qed

lemma paths_binary: "(s, p) \<in> set (paths t) \<Longrightarrow> set p \<subseteq> {CHR ''0'', CHR ''1''}"
  using paths_binary_char by blast

lemma paths_nonempty: "is_htree t \<Longrightarrow> paths t \<noteq> []"
  by (induction t) (auto split: if_splits)

lemma htree_to_codetable_body_eq:
  "is_htree t \<Longrightarrow>
   htree_to_codetable_body t table p =
     Inr (table ++ map_of (rev (map (\<lambda>(s, q). (s, p @ q)) (paths t))))"
proof (induction t arbitrary: table p)
  case Null
  then show ?case by simp
next
  case (Node v f l r)
  show ?case
  proof (cases "is_htree_leaf (Node v f l r)")
    case True
    with Node.prems show ?thesis
      by (simp del: is_htree_leaf.simps is_htree.simps add: map_add_def fun_eq_iff)
  next
    case False
    with Node.prems have int: "is_htree_interior (Node v f l r)"
      by (simp del: is_htree_leaf.simps is_htree_interior.simps)
    then have wf: "is_htree l" "is_htree r" by (auto split: if_splits)
    have m: "map (\<lambda>(s, q). (s, p @ q)) (paths (Node v f l r)) =
             map (\<lambda>(s, q). (s, (p @ ''0'') @ q)) (paths l)
           @ map (\<lambda>(s, q). (s, (p @ ''1'') @ q)) (paths r)"
      using False by (simp del: is_htree_leaf.simps add: case_prod_unfold comp_def)
    show ?thesis
      using Node.prems False int
      by (simp only: htree_to_codetable_body.simps Node.IH(1)[OF wf(1)] Node.IH(2)[OF wf(2)] m)
         (simp del: is_htree_leaf.simps is_htree.simps is_htree_interior.simps)
  qed
qed

lemma htree_to_codetable_eq:
  "is_htree H \<Longrightarrow> htree_to_codetable H = Inr (map_of (rev (paths H)))"
  by (simp add: htree_to_codetable_def htree_to_codetable_body_eq)

lemma leaves_leaf_at: "is_htree t \<Longrightarrow> (s \<in> set (leaves t)) = (\<exists>p. leaf_at t p s)"
proof -
  assume wf: "is_htree t"
  have "(s \<in> set (leaves t)) = (\<exists>p. (s, p) \<in> set (paths t))"
    by (force simp flip: paths_fst)
  then show ?thesis using paths_leaf_at[OF wf] by simp
qed

text \<open>
  Claim C6. For a well-formed tree, \<^verbatim>\<open>htree_to_codetable\<close> returns a table whose
  populated cells are exactly the symbols at the leaves of the tree; the string in the
  cell of a symbol is the path from the root to a leaf that holds the symbol, with
  \<open>CHR ''0''\<close> for a left descent and \<open>CHR ''1''\<close> for a right descent; when no
  symbol is at two leaves, every leaf's path is in the cell of its symbol; and unless the
  tree is a single leaf, no stored string is empty.
\<close>

theorem htree_to_codetable_paths:
  assumes "is_htree H"
  shows "\<exists>table. htree_to_codetable H = Inr table
           \<and> (\<forall>s. (table s \<noteq> None) = (s \<in> set (leaves H)))
           \<and> (\<forall>s p. table s = Some p \<longrightarrow> leaf_at H p s)
           \<and> (distinct (leaves H) \<longrightarrow> (\<forall>s p. leaf_at H p s \<longrightarrow> table s = Some p))
           \<and> (\<not> is_htree_leaf H \<longrightarrow> (\<forall>s p. table s = Some p \<longrightarrow> p \<noteq> []))"
proof -
  let ?table = "map_of (rev (paths H))"
  have "(?table s \<noteq> None) = (s \<in> set (leaves H))" for s
    by (simp add: map_of_eq_None_iff flip: paths_fst)
  moreover have la: "leaf_at H p s" if "?table s = Some p" for s p
    using map_of_SomeD[OF that] paths_leaf_at[OF assms] by simp
  moreover have "?table s = Some p" if "distinct (leaves H)" "leaf_at H p s" for s p
  proof -
    have "distinct (map fst (rev (paths H)))"
      using that(1) by (simp add: paths_fst flip: rev_map)
    moreover have "(s, p) \<in> set (rev (paths H))"
      using that(2) paths_leaf_at[OF assms] by simp
    ultimately show ?thesis by (rule map_of_is_SomeI)
  qed
  moreover have "p \<noteq> []" if "\<not> is_htree_leaf H" "?table s = Some p" for s p
  proof
    assume "p = []"
    with la[OF that(2)] have "is_htree_leaf H" by (simp add: leaf_at_def)
    with that(1) show False by simp
  qed
  ultimately show ?thesis using htree_to_codetable_eq[OF assms] by blast
qed

theorem htree_to_codetable_paths_witness:
  "\<exists>table. htree_to_codetable
      (Node 0 6 (Node 97 3 Null Null) (Node 0 3 (Node 99 1 Null Null) (Node 98 2 Null Null)))
        = Inr table
     \<and> table 97 = Some ''0'' \<and> table 98 = Some ''11'' \<and> table 99 = Some ''10''
     \<and> table 100 = None"
proof -
  let ?H = "Node 0 6 (Node 97 3 Null Null) (Node 0 3 (Node 99 1 Null Null) (Node 98 2 Null Null))"
  have wf: "is_htree ?H" by simp
  have d: "distinct (leaves ?H)" and n: "100 \<notin> set (leaves ?H)" by simp_all
  have l: "leaf_at ?H ''0'' 97" "leaf_at ?H ''11'' 98" "leaf_at ?H ''10'' 99"
    by (simp_all add: leaf_at_def)
  from htree_to_codetable_paths[OF wf] obtain table where
    t: "htree_to_codetable ?H = Inr table" and
    dom: "\<And>s. (table s \<noteq> None) = (s \<in> set (leaves ?H))" and
    all: "distinct (leaves ?H) \<longrightarrow> (\<forall>s p. leaf_at ?H p s \<longrightarrow> table s = Some p)"
    by (elim exE conjE) (rule that, assumption, erule spec, assumption)
  have "table 97 = Some ''0''" "table 98 = Some ''11''" "table 99 = Some ''10''"
    using all d l by blast+
  moreover have "table 100 = None" using dom[of 100] n by blast
  ultimately show ?thesis using t by blast
qed

section \<open>The encoder\<close>

lemma get_size_loop_eq:
  assumes "map table src = map Some codes" and "i \<le> length src"
  shows "get_size_loop table src (length src) i sz =
           Inr (sz + sum_list (map length (drop i codes)))"
  using assms(2)
proof (induction "length src - i" arbitrary: i sz)
  case 0
  then have "i = length src" by simp
  moreover have "length codes = length src" using assms(1) by (metis length_map)
  ultimately show ?case by (subst get_size_loop.simps) simp
next
  case (Suc n)
  then have lt: "i < length src" by simp
  have len: "length codes = length src" using assms(1) by (metis length_map)
  have "map table src ! i = map Some codes ! i" using assms(1) by simp
  then have entry: "table (src ! i) = Some (codes ! i)" using lt len by simp
  have d: "drop i codes = codes ! i # drop (Suc i) codes"
    using lt len by (simp add: Cons_nth_drop_Suc)
  have "get_size_loop table src (length src) (i + 1) (sz + length (codes ! i)) =
          Inr (sz + length (codes ! i) + sum_list (map length (drop (i + 1) codes)))"
    using Suc.hyps(1)[of "i + 1"] Suc.hyps(2) lt by simp
  then show ?case using lt entry d by (subst get_size_loop.simps) simp
qed

lemma populate_bstring_loop_eq:
  assumes "map table src = map Some codes" and "i \<le> length src"
  shows "populate_bstring_loop (pre @ replicate (length (concat (drop i codes)) + 1) NUL)
           table src (length src) (length pre) i =
         Inr (pre @ concat (drop i codes) @ [NUL])"
  using assms(2)
proof (induction "length src - i" arbitrary: i pre)
  case 0
  then have "i = length src" by simp
  moreover have "length codes = length src" using assms(1) by (metis length_map)
  ultimately show ?case by (subst populate_bstring_loop.simps) simp
next
  case (Suc n)
  then have lt: "i < length src" by simp
  have len: "length codes = length src" using assms(1) by (metis length_map)
  have "map table src ! i = map Some codes ! i" using assms(1) by simp
  then have entry: "table (src ! i) = Some (codes ! i)" using lt len by simp
  have d: "drop i codes = codes ! i # drop (Suc i) codes"
    using lt len by (simp add: Cons_nth_drop_Suc)
  let ?bs = "codes ! i"
  let ?R = "length (concat (drop (Suc i) codes))"
  have cp: "strcpy (pre @ replicate (length (concat (drop i codes)) + 1) NUL) (length pre) ?bs
            = Inr ((pre @ ?bs) @ replicate (?R + 1) NUL)"
    by (simp add: strcpy_def d replicate_add flip: replicate_append_same)
  have "populate_bstring_loop ((pre @ ?bs) @ replicate (?R + 1) NUL)
           table src (length src) (length (pre @ ?bs)) (i + 1) =
         Inr ((pre @ ?bs) @ concat (drop (i + 1) codes) @ [NUL])"
    using Suc.hyps(1)[of "i + 1" "pre @ ?bs"] Suc.hyps(2) lt by simp
  then show ?case using lt entry cp d
    by (subst populate_bstring_loop.simps) simp
qed

lemma encode_src_eq:
  assumes "map table src = map Some codes"
  shows "encode_src table src (length src) = Inr (concat codes @ [NUL])"
    and "get_size table src (length src) = Inr (sum_list (map length codes))"
proof -
  show gs: "get_size table src (length src) = Inr (sum_list (map length codes))"
    using get_size_loop_eq[OF assms, of 0 0] by (simp add: get_size_def)
  have lc: "length (concat codes) = sum_list (map length codes)"
    by (simp add: length_concat)
  have "populate_bstring (replicate (sum_list (map length codes) + 1) NUL) table src (length src) 0
          = Inr (concat codes @ [NUL])"
    using populate_bstring_loop_eq[OF assms, of 0 "[]"]
    by (simp add: populate_bstring_def lc)
  then show "encode_src table src (length src) = Inr (concat codes @ [NUL])"
    using gs by (simp add: encode_src_def)
qed

text \<open>
  Claim C7. When every symbol of the sequence has a cell in the code table (\<open>codes\<close>
  are the strings in these cells, in input order), the block that \<^verbatim>\<open>encode_src\<close>
  returns holds the concatenation of the codes in input order, followed by the
  terminator, and \<^verbatim>\<open>get_size\<close> computes its string length: the sum of the lengths
  of the codes.
\<close>

theorem encode_src_concat:
  assumes "map table src = map Some codes"
  shows "encode_src table src (length src) = Inr (concat codes @ [NUL])
       \<and> get_size table src (length src) = Inr (sum_list (map length codes))
       \<and> length (concat codes) = sum_list (map length codes)"
  using encode_src_eq[OF assms] by (simp add: length_concat)

theorem encode_src_concat_witness:
  "encode_src ((\<lambda>s. None)(97 := Some ''0'', 98 := Some ''10'', 99 := Some ''11''))
      [97, 97, 97, 98, 98, 99] 6 = Inr (''000101011'' @ [NUL])
   \<and> get_size ((\<lambda>s. None)(97 := Some ''0'', 98 := Some ''10'', 99 := Some ''11''))
      [97, 97, 97, 98, 98, 99] 6 = Inr 9"
  using encode_src_concat[of "(\<lambda>s. None)(97 := Some ''0'', 98 := Some ''10'', 99 := Some ''11'')"
      "[97, 97, 97, 98, 98, 99]" "[''0'', ''0'', ''0'', ''10'', ''10'', ''11'']"]
  by (simp add: eval_nat_numeral)

section \<open>The decoder\<close>

lemma is_htree_cases: "is_htree t \<Longrightarrow> \<not> is_htree_leaf t \<Longrightarrow> is_htree_interior t"
  by (cases t) (simp_all del: is_htree_leaf.simps(2) is_htree_interior.simps(2))

lemma is_htree_interior_children:
  "is_htree_interior (Node v f l r) \<Longrightarrow> is_htree l \<and> is_htree r"
  by (simp split: if_splits)

lemma is_htree_interior_not_leaf: "is_htree_interior t \<Longrightarrow> \<not> is_htree_leaf t"
  by (cases t) auto

lemma decode_loops_total:
  assumes H: "is_htree_interior H"
  shows "is_htree_interior node \<Longrightarrow>
    \<exists>node' k. (\<forall>res. find_len_loop H node res code = Inr (node', res + k))
      \<and> (\<forall>arr ai. ai + k \<le> length arr \<longrightarrow>
            (\<exists>arr'. parse_code_loop H node arr ai code = Inr (arr', ai + k)
                  \<and> length arr' = length arr))"
proof (induction code arbitrary: node)
  case Nil
  have "(\<forall>res. find_len_loop H node res [] = Inr (node, res + 0))
      \<and> (\<forall>arr ai. ai + 0 \<le> length arr \<longrightarrow>
            (\<exists>arr'. parse_code_loop H node arr ai [] = Inr (arr', ai + 0)
                  \<and> length arr' = length arr))"
    by simp
  then show ?case by blast
next
  case (Cons c cs)
  from Cons.prems obtain v f l r where node: "node = Node v f l r" by (cases node) auto
  define node' where "node' = (if c = CHR ''0'' then l else r)"
  have wf': "is_htree node'"
    using Cons.prems is_htree_interior_children unfolding node node'_def by metis
  show ?case
  proof (cases "is_htree_leaf node'")
    case True
    from Cons.IH[OF H] obtain n k where
      fl: "\<And>res. find_len_loop H H res cs = Inr (n, res + k)" and
      pc: "\<And>arr ai. ai + k \<le> length arr \<Longrightarrow>
            \<exists>arr'. parse_code_loop H H arr ai cs = Inr (arr', ai + k) \<and> length arr' = length arr"
      by blast
    have "find_len_loop H node res (c # cs) = Inr (n, res + Suc k)" for res
      using True fl[of "res + 1"] by (simp add: node node'_def del: is_htree_leaf.simps)
    moreover have "\<exists>arr'. parse_code_loop H node arr ai (c # cs) = Inr (arr', ai + Suc k)
                  \<and> length arr' = length arr" if "ai + Suc k \<le> length arr" for arr ai
    proof -
      have lt: "ai < length arr" using that by simp
      have "(ai + 1) + k \<le> length (arr[ai := val node'])" using that by simp
      from pc[OF this] show ?thesis
        using True lt by (simp add: node node'_def del: is_htree_leaf.simps)
    qed
    ultimately show ?thesis by blast
  next
    case False
    have "is_htree_interior node'" using is_htree_cases[OF wf' False] .
    from Cons.IH[OF this] obtain n k where
      fl: "\<And>res. find_len_loop H node' res cs = Inr (n, res + k)" and
      pc: "\<And>arr ai. ai + k \<le> length arr \<Longrightarrow>
            \<exists>arr'. parse_code_loop H node' arr ai cs = Inr (arr', ai + k) \<and> length arr' = length arr"
      by blast
    have "find_len_loop H node res (c # cs) = Inr (n, res + k)" for res
      using False fl[of res] by (simp add: node node'_def del: is_htree_leaf.simps)
    moreover have "\<exists>arr'. parse_code_loop H node arr ai (c # cs) = Inr (arr', ai + k)
                  \<and> length arr' = length arr" if "ai + k \<le> length arr" for arr ai
      using pc[OF that] False by (simp add: node node'_def del: is_htree_leaf.simps)
    ultimately show ?thesis by blast
  qed
qed

section \<open>The round trip\<close>

lemma paths_leaf: "is_htree_leaf t \<Longrightarrow> paths t = [(val t, [])]"
  by (cases t) auto

lemma decode_loops_path:
  "is_htree_interior node \<Longrightarrow> (s, q) \<in> set (paths node) \<Longrightarrow>
     find_len_loop H node res (q @ rest) = find_len_loop H H (res + 1) rest
   \<and> parse_code_loop H node arr ai (q @ rest) =
       (if ai < length arr then parse_code_loop H H (arr[ai := s]) (ai + 1) rest
        else Inl OutOfBounds)"
proof (induction node arbitrary: q)
  case Null
  then show ?case by simp
next
  case (Node v f l r)
  have nl: "\<not> is_htree_leaf (Node v f l r)"
    using is_htree_interior_not_leaf[OF Node.prems(1)] .
  have wf: "is_htree l" "is_htree r"
    using is_htree_interior_children[OF Node.prems(1)] by simp_all
  from Node.prems(2) nl consider q' where "q = CHR ''0'' # q'" "(s, q') \<in> set (paths l)"
    | q' where "q = CHR ''1'' # q'" "(s, q') \<in> set (paths r)"
    by (auto simp del: is_htree_leaf.simps)
  then show ?case
  proof cases
    case 1
    show ?thesis
    proof (cases "is_htree_leaf l")
      case True
      with 1(2) have "q' = []" "s = val l" by (simp_all add: paths_leaf)
      with True 1(1) show ?thesis by (simp del: is_htree_leaf.simps)
    next
      case False
      from Node.IH(1)[OF is_htree_cases[OF wf(1) False] 1(2)] False 1(1)
      show ?thesis by (simp del: is_htree_leaf.simps)
    qed
  next
    case 2
    show ?thesis
    proof (cases "is_htree_leaf r")
      case True
      with 2(2) have "q' = []" "s = val r" by (simp_all add: paths_leaf)
      with True 2(1) show ?thesis by (simp del: is_htree_leaf.simps)
    next
      case False
      from Node.IH(2)[OF is_htree_cases[OF wf(2) False] 2(2)] False 2(1)
      show ?thesis by (simp del: is_htree_leaf.simps)
    qed
  qed
qed

lemma find_len_loop_concat:
  assumes "is_htree_interior H"
    and "list_all2 (\<lambda>s q. (s, q) \<in> set (paths H)) src codes"
  shows "find_len_loop H H res (concat codes) = Inr (H, res + length src)"
  using assms(2)
proof (induction src codes arbitrary: res rule: list_all2_induct)
  case Nil
  then show ?case by simp
next
  case (Cons s src q codes)
  from decode_loops_path[OF assms(1) Cons.hyps(1), of H res "concat codes"] Cons.IH[of "res + 1"]
  show ?case by simp
qed

lemma parse_code_loop_concat:
  assumes "is_htree_interior H"
    and "list_all2 (\<lambda>s q. (s, q) \<in> set (paths H)) src codes"
  shows "parse_code_loop H H (pre @ replicate (length src) 0) (length pre) (concat codes)
           = Inr (pre @ src, length pre + length src)"
  using assms(2)
proof (induction src codes arbitrary: pre rule: list_all2_induct)
  case Nil
  then show ?case by simp
next
  case (Cons s src q codes)
  have "(pre @ replicate (length (s # src)) 0)[length pre := s]
          = (pre @ [s]) @ replicate (length src) 0"
    by (simp add: list_update_append)
  with decode_loops_path[OF assms(1) Cons.hyps(1),
      of H 0 "concat codes" "pre @ replicate (length (s # src)) 0" "length pre"]
    Cons.IH[of "pre @ [s]"]
  show ?case by simp
qed

lemma decode_src_concat:
  assumes "is_htree_interior H"
    and "list_all2 (\<lambda>s q. (s, q) \<in> set (paths H)) src codes"
  shows "decode_src H (concat codes) = Inr (src, length src)"
proof -
  have wf: "is_htree H" using is_htree_interior_imp[OF assms(1)] .
  have "find_len H (concat codes) = Inr (length src)"
    using find_len_loop_concat[OF assms, of 0] wf by (simp add: find_len_def)
  moreover have "parse_code H (concat codes) (replicate (length src) 0) (length src) = Inr src"
    using parse_code_loop_concat[OF assms, of "[]"] wf by (simp add: parse_code_def)
  ultimately show ?thesis using wf by (simp add: decode_src_def)
qed

lemma c_str_terminated: "NUL \<notin> set s \<Longrightarrow> c_str (s @ [NUL]) = s"
  by (induction s) (auto simp: c_str_def)

text \<open>
  Claim C1. For a frequency table in which at least two symbols have a nonzero
  frequency and a sequence of symbols that all have a nonzero frequency: the tree is
  built, its code table is derived, the sequence is encoded, and decoding the encoded
  string with the tree returns the sequence, with its length as decoded length.
\<close>

theorem decode_encode_roundtrip:
  assumes "a \<noteq> b" and "table a \<noteq> 0" and "table b \<noteq> 0"
    and "\<forall>s\<in>set src. table s \<noteq> 0"
  shows "\<exists>tree codetable code.
           build_htree table = Inr tree
         \<and> htree_to_codetable tree = Inr codetable
         \<and> encode_src codetable src (length src) = Inr code
         \<and> decode_src tree (c_str code) = Inr (src, length src)"
proof -
  from build_htree_ok[OF two_nonzero_card[OF assms(1-3)]] obtain tree where
    t: "build_htree table = Inr tree" "is_htree tree" "is_htree_interior tree"
       "mset (leaves tree) = mset (nonzero_symbols table)"
    by blast
  have lv: "set (leaves tree) = {s. table s \<noteq> 0}"
    using mset_eq_setD[OF t(4)] by (simp add: nonzero_symbols_set)
  define ct where "ct = map_of (rev (paths tree))"
  have ct: "htree_to_codetable tree = Inr ct"
    using htree_to_codetable_eq[OF t(2)] by (simp add: ct_def)
  define codes where "codes = map (\<lambda>s. the (ct s)) src"
  have entry: "ct s = Some (the (ct s)) \<and> (s, the (ct s)) \<in> set (paths tree)"
    if "s \<in> set src" for s
  proof -
    have "s \<in> set (leaves tree)" using that assms(4) lv by simp
    then have "ct s \<noteq> None"
      by (simp add: ct_def map_of_eq_None_iff flip: paths_fst)
    then obtain q where q: "ct s = Some q" by auto
    then have "(s, q) \<in> set (paths tree)"
      using map_of_SomeD[of "rev (paths tree)" s q] by (simp add: ct_def)
    with q show ?thesis by simp
  qed
  have m: "map ct src = map Some codes"
    using entry by (simp add: codes_def)
  have la: "list_all2 (\<lambda>s q. (s, q) \<in> set (paths tree)) src codes"
    using entry by (simp add: codes_def list_all2_map2 list_all2_same)
  have enc: "encode_src ct src (length src) = Inr (concat codes @ [NUL])"
    using encode_src_eq(1)[OF m] .
  have "NUL \<notin> set (concat codes)"
  proof
    assume "NUL \<in> set (concat codes)"
    then obtain s where "s \<in> set src" "NUL \<in> set (the (ct s))"
      by (auto simp: codes_def)
    with entry[of s] paths_binary[of s "the (ct s)" tree] show False by auto
  qed
  then have "c_str (concat codes @ [NUL]) = concat codes" by (rule c_str_terminated)
  then have "decode_src tree (c_str (concat codes @ [NUL])) = Inr (src, length src)"
    using decode_src_concat[OF t(3) la] by simp
  with t(1) ct enc show ?thesis by blast
qed

theorem decode_encode_roundtrip_witness:
  "\<exists>tree codetable code.
       build_htree ((\<lambda>s. 0)(97 := 3, 98 := 2, 99 := 1)) = Inr tree
     \<and> htree_to_codetable tree = Inr codetable
     \<and> encode_src codetable [97, 97, 97, 98, 98, 99] (length [97, 97, 97, 98, 98, 99 :: symbol_t]) = Inr code
     \<and> decode_src tree (c_str code) = Inr ([97, 97, 97, 98, 98, 99], length [97, 97, 97, 98, 98, 99 :: symbol_t])"
  by (rule decode_encode_roundtrip[of 97 98]) simp_all

section \<open>Code boundaries in the decoder\<close>

lemma paths_interior_nonempty:
  "is_htree_interior n \<Longrightarrow> (s, q) \<in> set (paths n) \<Longrightarrow> q \<noteq> []"
  by (cases n) (auto simp del: is_htree_interior.simps(2) dest: is_htree_interior_not_leaf)

lemma find_len_loop_walk:
  "is_htree_interior n \<Longrightarrow> set code \<subseteq> {CHR ''0'', CHR ''1''} \<Longrightarrow>
   find_len_loop H n res code = Inr (node', res') \<Longrightarrow>
     (size node' < size n \<or> (code = [] \<and> node' = n))
   \<or> (\<exists>q rest s. code = q @ rest \<and> (s, q) \<in> set (paths n)
          \<and> find_len_loop H H (res + 1) rest = Inr (node', res'))"
proof (induction code arbitrary: n)
  case Nil
  then show ?case by simp
next
  case (Cons c cs)
  from Cons.prems(1) obtain v f l r where n: "n = Node v f l r" by (cases n) auto
  have nl: "\<not> is_htree_leaf (Node v f l r)"
    using is_htree_interior_not_leaf Cons.prems(1) n by blast
  have wf: "is_htree l" "is_htree r"
    using is_htree_interior_children Cons.prems(1) n by blast+
  have c: "c = CHR ''0'' \<or> c = CHR ''1''" using Cons.prems(2) by auto
  have bin: "set cs \<subseteq> {CHR ''0'', CHR ''1''}" using Cons.prems(2) by auto
  define child where "child = (if c = CHR ''0'' then l else r)"
  have wfc: "is_htree child" using wf by (simp add: child_def)
  have sz: "size child < size n" by (simp add: child_def n)
  have pth: "(s, q) \<in> set (paths child) \<Longrightarrow> (s, c # q) \<in> set (paths n)" for s q
    using c nl unfolding n child_def by (auto simp del: is_htree_leaf.simps)
  show ?case
  proof (cases "is_htree_leaf child")
    case True
    then have "find_len_loop H H (res + 1) cs = Inr (node', res')"
      using Cons.prems(3) by (simp add: n child_def del: is_htree_leaf.simps)
    moreover have "(val child, [c]) \<in> set (paths n)"
      using pth[of "val child" "[]"] paths_leaf[OF True] by simp
    moreover have "c # cs = [c] @ cs" by simp
    ultimately show ?thesis by blast
  next
    case False
    then have int: "is_htree_interior child" using is_htree_cases[OF wfc] by simp
    have "find_len_loop H child res cs = Inr (node', res')"
      using Cons.prems(3) False by (simp add: n child_def del: is_htree_leaf.simps)
    from Cons.IH[OF int bin this] show ?thesis
    proof (elim disjE exE conjE)
      assume "size node' < size child"
      then show ?thesis using sz by simp
    next
      assume "cs = []" "node' = child"
      then show ?thesis using sz by simp
    next
      fix q rest s
      assume "cs = q @ rest" "(s, q) \<in> set (paths child)"
        "find_len_loop H H (res + 1) rest = Inr (node', res')"
      moreover from this have "c # cs = (c # q) @ rest" "(s, c # q) \<in> set (paths n)"
        using pth by simp_all
      ultimately show ?thesis by blast
    qed
  qed
qed

lemma find_len_loop_codes:
  assumes "is_htree_interior H"
    and "\<forall>c\<in>set codes. \<exists>s. (s, c) \<in> set (paths H)"
  shows "find_len_loop H H res (concat codes) = Inr (H, res + length codes)"
  using assms(2)
proof (induction codes arbitrary: res)
  case Nil
  then show ?case by simp
next
  case (Cons q codes)
  then obtain s where "(s, q) \<in> set (paths H)" by auto
  from decode_loops_path[OF assms(1) this, of H res "concat codes" "[]" 0] Cons.IH[of "res + 1"] Cons.prems
  show ?case by simp
qed

lemma find_len_loop_root_codes:
  assumes "is_htree_interior H"
  shows "set code \<subseteq> {CHR ''0'', CHR ''1''} \<Longrightarrow>
         find_len_loop H H res code = Inr (H, res') \<Longrightarrow>
         \<exists>codes. code = concat codes \<and> (\<forall>c\<in>set codes. \<exists>s. (s, c) \<in> set (paths H))"
proof (induction "length code" arbitrary: code res rule: less_induct)
  case less
  from find_len_loop_walk[OF assms less.prems] show ?case
  proof (elim disjE exE conjE)
    assume "size H < size H"
    then show ?thesis by simp
  next
    assume "code = []"
    then have "code = concat []" by simp
    then show ?thesis by (metis empty_iff list.set(1))
  next
    fix q rest s
    assume a: "code = q @ rest" "(s, q) \<in> set (paths H)"
      "find_len_loop H H (res + 1) rest = Inr (H, res')"
    have "q \<noteq> []" using paths_interior_nonempty[OF assms a(2)] .
    then have "length rest < length code" using a(1) by simp
    moreover have "set rest \<subseteq> {CHR ''0'', CHR ''1''}" using less.prems(1) a(1) by auto
    ultimately obtain codes where
      c: "rest = concat codes" "\<forall>c\<in>set codes. \<exists>s. (s, c) \<in> set (paths H)"
      using less.hyps[OF _ _ a(3)] by blast
    have "code = concat (q # codes)" using a(1) c(1) by simp
    moreover have "\<forall>c\<in>set (q # codes). \<exists>s. (s, c) \<in> set (paths H)"
      using a(2) c(2) by auto
    ultimately show ?thesis by blast
  qed
qed

text \<open>
  For a well-formed tree whose root is not a leaf and a string of \<open>CHR ''0''\<close> and
  \<open>CHR ''1''\<close> characters, \<^verbatim>\<open>decode_src\<close> fails with the truncated-code error
  exactly when the string is not a concatenation of root-to-leaf paths of the tree (it
  does not end on a code boundary); otherwise it returns one symbol for each path, with
  their number as decoded length.
\<close>

lemma decode_src_code_boundary:
  assumes "is_htree H" and "\<not> is_htree_leaf H" and "set code \<subseteq> {CHR ''0'', CHR ''1''}"
  shows "(decode_src H code = Inl TruncatedCodeError) =
           (\<not> (\<exists>codes. code = concat codes \<and> (\<forall>c\<in>set codes. \<exists>s. leaf_at H c s)))"
    and "code = concat codes \<Longrightarrow> \<forall>c\<in>set codes. \<exists>s. leaf_at H c s \<Longrightarrow>
           \<exists>syms. decode_src H code = Inr (syms, length codes) \<and> length syms = length codes"
proof -
  have int: "is_htree_interior H" using is_htree_cases[OF assms(1,2)] .
  have la: "leaf_at H c s = ((s, c) \<in> set (paths H))" for c s
    using paths_leaf_at[OF assms(1)] by simp
  from decode_loops_total[OF int int, of code] obtain node k where
    fl: "\<And>res. find_len_loop H H res code = Inr (node, res + k)" and
    pc: "\<And>arr ai. ai + k \<le> length arr \<Longrightarrow>
          \<exists>arr'. parse_code_loop H H arr ai code = Inr (arr', ai + k) \<and> length arr' = length arr"
    by blast
  have f0: "find_len_loop H H 0 code = Inr (node, k)" using fl[of 0] by simp
  have ok: "\<exists>syms. decode_src H code = Inr (syms, k) \<and> length syms = k" if "node = H"
  proof -
    have "0 + k \<le> length (replicate k (0 :: symbol_t))" by simp
    from pc[OF this] obtain arr' where
      "parse_code_loop H H (replicate k 0) 0 code = Inr (arr', k)" "length arr' = k"
      by auto
    then show ?thesis
      using that f0 assms(1) by (simp add: decode_src_def find_len_def parse_code_def)
  qed
  have bad: "decode_src H code = Inl TruncatedCodeError" if "node \<noteq> H"
    using that f0 assms(1) by (simp add: decode_src_def find_len_def)
  have root: "(node = H) = (\<exists>codes. code = concat codes \<and> (\<forall>c\<in>set codes. \<exists>s. leaf_at H c s))"
  proof
    assume "node = H"
    then show "\<exists>codes. code = concat codes \<and> (\<forall>c\<in>set codes. \<exists>s. leaf_at H c s)"
      using find_len_loop_root_codes[OF int assms(3), of 0 k] f0 la by simp
  next
    assume "\<exists>codes. code = concat codes \<and> (\<forall>c\<in>set codes. \<exists>s. leaf_at H c s)"
    then obtain codes where "code = concat codes" "\<forall>c\<in>set codes. \<exists>s. (s, c) \<in> set (paths H)"
      using la by auto
    then show "node = H" using find_len_loop_codes[OF int, of codes 0] f0 by simp
  qed
  show "(decode_src H code = Inl TruncatedCodeError) =
           (\<not> (\<exists>codes. code = concat codes \<and> (\<forall>c\<in>set codes. \<exists>s. leaf_at H c s)))"
  proof (cases "node = H")
    case True
    then show ?thesis using ok root by auto
  next
    case False
    then show ?thesis using bad root by simp
  qed
  show "\<exists>syms. decode_src H code = Inr (syms, length codes) \<and> length syms = length codes"
    if "code = concat codes" "\<forall>c\<in>set codes. \<exists>s. leaf_at H c s"
  proof -
    have "\<forall>c\<in>set codes. \<exists>s. (s, c) \<in> set (paths H)" using that(2) la by simp
    from find_len_loop_codes[OF int this, of 0] that(1) f0 have "node = H" "k = length codes"
      by simp_all
    with ok show ?thesis by simp
  qed
qed

text \<open>
  Claim C4. The claim is that for every well-formed tree \<^verbatim>\<open>decode_src\<close> either
  fails with the truncated-code error (the traversal pointer is not back at the root
  when the bits are consumed) or succeeds. A single leaf is a well-formed tree: the
  first bit moves the pointer of \<^verbatim>\<open>find_len\<close> from it to \<^verbatim>\<open>NULL\<close>, and the second
  bit reads a child through \<^verbatim>\<open>NULL\<close>. On the strings \<open>''0''\<close> and \<open>''''\<close> the same
  tree is decoded as the claim says.
\<close>

theorem decode_src_single_leaf_null_dereference:
  "is_htree (Node 5 1 Null Null)
   \<and> set ''00'' \<subseteq> {CHR ''0'', CHR ''1''}
   \<and> find_len (Node 5 1 Null Null) ''00'' = Inl NullDereference
   \<and> decode_src (Node 5 1 Null Null) ''00'' = Inl NullDereference
   \<and> decode_src (Node 5 1 Null Null) ''0'' = Inl TruncatedCodeError
   \<and> decode_src (Node 5 1 Null Null) '''' = Inr ([], 0)"
  by (simp add: decode_src_def find_len_def parse_code_def)

section \<open>Packing\<close>

lemma placeval_cases: "j < 8 \<Longrightarrow> j \<in> {0, 1, 2, 3, 4, 5, 6, 7 :: nat}"
  by auto

lemma placeval_pos: "j < 8 \<Longrightarrow> (2 ^ (7 - j) :: 8 word) > 0"
  using placeval_cases[of j] by auto

lemma placeval_half: "j < 7 \<Longrightarrow> (2 ^ (7 - j) :: 8 word) div 2 = 2 ^ (7 - (j + 1))"
  using placeval_cases[of j] by auto

lemma placeval_bit: "bit (2 ^ (7 - j) :: 8 word) n = (n = 7 - j)"
  by (auto simp: bit_exp_iff)

lemma pack_byte_loop_bits:
  assumes bin: "set bits \<subseteq> {CHR ''0'', CHR ''1''}"
  shows "j \<le> 8 \<Longrightarrow> start + j \<le> length bits \<Longrightarrow> \<forall>n. bit byte n \<longrightarrow> 8 - j \<le> n \<Longrightarrow>
         (j < 8 \<longrightarrow> placeval = 2 ^ (7 - j)) \<Longrightarrow>
    \<exists>r. pack_byte_loop bits start j byte placeval = Inr r
       \<and> (\<forall>n. bit r n = (bit byte n \<or> (n < 8 - j \<and> bit_set bits (start + (7 - n)))))"
proof (induction "8 - j" arbitrary: j byte placeval)
  case 0
  then have "\<not> j < 8" by simp
  then show ?case by (subst pack_byte_loop.simps) simp
next
  case (Suc m)
  then have lt: "j < 8" by simp
  then have pv: "placeval = 2 ^ (7 - j)" using Suc.prems(4) by simp
  show ?case
  proof (cases "start + j = length bits")
    case True
    have "\<not> bit_set bits (start + (7 - n))" if "n < 8 - j" for n
    proof -
      have "length bits \<le> start + (7 - n)" using that True by linarith
      then show ?thesis by (simp add: bit_set_def)
    qed
    then show ?thesis using lt True by (subst pack_byte_loop.simps) auto
  next
    case False
    then have inb: "start + j < length bits" using Suc.prems(2) by simp
    then have c: "bits ! (start + j) = CHR ''0'' \<or> bits ! (start + j) = CHR ''1''"
      using bin nth_mem[OF inb] by blast
    have pos: "placeval > 0" using placeval_pos[OF lt] pv by simp
    have pv': "j + 1 < 8 \<longrightarrow> placeval div 2 = 2 ^ (7 - (j + 1))"
      using placeval_half[of j] pv by auto
    have m: "m = 8 - (j + 1)" using Suc.hyps(2) by simp
    have j1: "j + 1 \<le> 8" "start + (j + 1) \<le> length bits" using lt inb by simp_all
    show ?thesis
    proof (cases "bits ! (start + j) = CHR ''1''")
      case True
      have disj: "\<not> bit byte n \<or> \<not> bit placeval n" for n
        using Suc.prems(3) lt by (auto simp: pv placeval_bit)
      have b': "bit (byte + placeval * 1) n = (bit byte n \<or> n = 7 - j)" for n
        using bit_disjunctive_add_iff[of byte placeval n, OF disj] by (simp add: pv placeval_bit)
      then have inv': "\<forall>n. bit (byte + placeval * 1) n \<longrightarrow> 8 - (j + 1) \<le> n"
        using Suc.prems(3) lt by auto
      from Suc.hyps(1)[OF m j1 inv' pv'] obtain r where
        r: "pack_byte_loop bits start (j + 1) (byte + placeval * 1) (placeval div 2) = Inr r"
           "\<And>n. bit r n = (bit (byte + placeval * 1) n
                \<or> (n < 8 - (j + 1) \<and> bit_set bits (start + (7 - n))))"
        by blast
      have "bit r n = (bit byte n \<or> (n < 8 - j \<and> bit_set bits (start + (7 - n))))" for n
      proof (cases "n = 7 - j")
        case True
        then have "start + (7 - n) = start + j" using lt by simp
        then have "bit_set bits (start + (7 - n))"
          using inb \<open>bits ! (start + j) = CHR ''1''\<close> by (simp add: bit_set_def)
        moreover have "n < 8 - j" using True lt by linarith
        ultimately show ?thesis using r(2)[of n] b'[of n] True by simp
      next
        case False
        then show ?thesis using r(2)[of n] b'[of n] by auto
      qed
      with r(1) show ?thesis
        using lt inb True pos by (subst pack_byte_loop.simps) simp
    next
      case False
      then have c0: "bits ! (start + j) = CHR ''0''" using c by simp
      have inv': "\<forall>n. bit byte n \<longrightarrow> 8 - (j + 1) \<le> n"
        using Suc.prems(3) by auto
      from Suc.hyps(1)[OF m j1 inv' pv'] obtain r where
        r: "pack_byte_loop bits start (j + 1) byte (placeval div 2) = Inr r"
           "\<And>n. bit r n = (bit byte n
                \<or> (n < 8 - (j + 1) \<and> bit_set bits (start + (7 - n))))"
        by blast
      have "bit r n = (bit byte n \<or> (n < 8 - j \<and> bit_set bits (start + (7 - n))))" for n
      proof (cases "n = 7 - j")
        case True
        then have "start + (7 - n) = start + j" using lt by simp
        then have "\<not> bit_set bits (start + (7 - n))"
          using c0 by (simp add: bit_set_def)
        moreover have "\<not> n < 8 - (j + 1)" using True lt by linarith
        ultimately show ?thesis using r(2)[of n] by simp
      next
        case False
        then show ?thesis using r(2)[of n] by auto
      qed
      with r(1) show ?thesis
        using lt inb c0 pos by (subst pack_byte_loop.simps) simp
    qed
  qed
qed

lemma pack_byte_bits:
  assumes "set bits \<subseteq> {CHR ''0'', CHR ''1''}" and "start \<le> length bits"
  shows "\<exists>r. pack_byte_loop bits start 0 0 128 = Inr r
       \<and> (\<forall>n. bit r n = (n < 8 \<and> bit_set bits (start + (7 - n))))"
  using pack_byte_loop_bits[OF assms(1), of 0 start 0 128] assms(2) by simp

lemma get_res_len_eq: "get_res_len n = (n + 7) div 8"
  by (simp add: get_res_len_def Let_def) presburger

lemma populate_byte_array_loop_bits:
  assumes bin: "set bits \<subseteq> {CHR ''0'', CHR ''1''}"
    and cover: "\<forall>i'<n. 8 * i' < length bits"
  shows "i \<le> n \<Longrightarrow> length bytes = n \<Longrightarrow>
    \<exists>bytes'. populate_byte_array_loop bytes n bits i = Inr bytes'
       \<and> length bytes' = n
       \<and> (\<forall>i'<i. bytes' ! i' = bytes ! i')
       \<and> (\<forall>i'. i \<le> i' \<and> i' < n \<longrightarrow>
            (\<forall>m. bit (bytes' ! i') m = (m < 8 \<and> bit_set bits (8 * i' + (7 - m)))))"
proof (induction "n - i" arbitrary: i bytes)
  case 0
  then have "i = n" by simp
  then show ?case using 0(3) by (subst populate_byte_array_loop.simps) auto
next
  case (Suc k)
  then have lt: "i < n" by simp
  then have inb: "i * 8 < length bits" using cover by (simp add: mult.commute)
  then have "i * 8 \<le> length bits" by simp
  from pack_byte_bits[OF bin this] obtain r where
    r: "pack_byte_loop bits (i * 8) 0 0 128 = Inr r"
       "\<And>m. bit r m = (m < 8 \<and> bit_set bits (i * 8 + (7 - m)))"
    by blast
  have "k = n - (i + 1)" "i + 1 \<le> n" "length (bytes[i := r]) = n"
    using Suc.hyps(2) lt Suc.prems(2) by simp_all
  from Suc.hyps(1)[OF this] obtain bytes' where
    b: "populate_byte_array_loop (bytes[i := r]) n bits (i + 1) = Inr bytes'"
       "length bytes' = n"
       "\<And>i'. i' < i + 1 \<Longrightarrow> bytes' ! i' = bytes[i := r] ! i'"
       "\<And>i' m. i + 1 \<le> i' \<Longrightarrow> i' < n \<Longrightarrow>
            bit (bytes' ! i') m = (m < 8 \<and> bit_set bits (8 * i' + (7 - m)))"
    by blast
  have step: "populate_byte_array_loop bytes n bits i = Inr bytes'"
    using lt inb r(1) b(1) Suc.prems(2) by (subst populate_byte_array_loop.simps) simp
  have old: "bytes' ! i' = bytes ! i'" if "i' < i" for i'
    using b(3)[of i'] that by simp
  have new: "bit (bytes' ! i') m = (m < 8 \<and> bit_set bits (8 * i' + (7 - m)))"
    if "i \<le> i'" "i' < n" for i' m
  proof (cases "i' = i")
    case True
    have "bytes' ! i = r" using b(3)[of i] lt Suc.prems(2) by simp
    then show ?thesis using r(2)[of m] True by (simp add: mult.commute)
  next
    case False
    then show ?thesis using b(4)[of i' m] that by simp
  qed
  show ?case using step b(2) old new by blast
qed

lemma get_res_len_cover: "i < get_res_len n \<Longrightarrow> 8 * i < n"
  unfolding get_res_len_eq by arith

lemma pack_bits:
  assumes "set s \<subseteq> {CHR ''0'', CHR ''1''}"
  shows "\<exists>bytes. pack s = Inr bytes \<and> length bytes = get_res_len (length s)
       \<and> (\<forall>i<length bytes. \<forall>m. bit (bytes ! i) m = (m < 8 \<and> bit_set s (8 * i + (7 - m))))"
proof -
  let ?n = "get_res_len (length s)"
  have cover: "\<forall>i'<?n. 8 * i' < length s"
    by (intro allI impI) (rule get_res_len_cover)
  have "\<exists>bytes'. populate_byte_array_loop (replicate ?n 0) ?n s 0 = Inr bytes'
       \<and> length bytes' = ?n
       \<and> (\<forall>i'<0. bytes' ! i' = replicate ?n 0 ! i')
       \<and> (\<forall>i'. 0 \<le> i' \<and> i' < ?n \<longrightarrow>
            (\<forall>m. bit (bytes' ! i') m = (m < 8 \<and> bit_set s (8 * i' + (7 - m)))))"
    by (rule populate_byte_array_loop_bits[OF assms cover]) simp_all
  then obtain bytes where
    b1: "populate_byte_array_loop (replicate ?n 0) ?n s 0 = Inr bytes" and
    b2: "length bytes = ?n" and
    b3: "\<forall>i'. 0 \<le> i' \<and> i' < ?n \<longrightarrow>
            (\<forall>m. bit (bytes ! i') m = (m < 8 \<and> bit_set s (8 * i' + (7 - m))))"
    by (elim exE conjE)
  have p: "pack s = Inr bytes"
    unfolding pack_def populate_byte_array_def Let_def by (rule b1)
  have "bit (bytes ! i) m = (m < 8 \<and> bit_set s (8 * i + (7 - m)))" if "i < length bytes" for i m
  proof -
    have "0 \<le> i \<and> i < ?n" using that b2 by simp
    with b3 show ?thesis by blast
  qed
  with p b2 show ?thesis by blast
qed

text \<open>
  Claim C8. For a string of \<open>CHR ''0''\<close> and \<open>CHR ''1''\<close> characters of length \<open>n\<close>,
  \<^verbatim>\<open>pack\<close> returns \<open>ceil(n/8)\<close> bytes; character \<open>j\<close> of group \<open>i\<close> is bit
  \<open>7 - j\<close> of byte \<open>i\<close> (the first character is the bit of value 128), and the bits
  of the last byte beyond the end of the string are 0. Packing \<open>''000101011''\<close>
  gives the bytes \<open>0x15\<close> and \<open>0x80\<close>.
\<close>

theorem pack_msb_first:
  assumes "set s \<subseteq> {CHR ''0'', CHR ''1''}"
  shows "(\<exists>bytes. pack s = Inr bytes
          \<and> length bytes = (length s + 7) div 8
          \<and> (\<forall>i<length bytes. \<forall>j<8.
                bit (bytes ! i) (7 - j) = (8 * i + j < length s \<and> s ! (8 * i + j) = CHR ''1'')))
       \<and> pack ''000101011'' = Inr [0x15, 0x80]"
proof (rule conjI)
  from pack_bits[OF assms] obtain bytes where
    b: "pack s = Inr bytes" "length bytes = get_res_len (length s)"
       "\<And>i m. i < length bytes \<Longrightarrow> bit (bytes ! i) m = (m < 8 \<and> bit_set s (8 * i + (7 - m)))"
    by blast
  have "bit (bytes ! i) (7 - j) = (8 * i + j < length s \<and> s ! (8 * i + j) = CHR ''1'')"
    if "i < length bytes" "j < 8" for i j
  proof -
    have e: "7 - (7 - j) = j" and l: "7 - j < 8" using that(2) by simp_all
    show ?thesis unfolding b(3)[OF that(1), of "7 - j"] e bit_set_def using l by simp
  qed
  moreover have "length bytes = (length s + 7) div 8"
    using b(2) by (simp only: get_res_len_eq)
  ultimately show "\<exists>bytes. pack s = Inr bytes
          \<and> length bytes = (length s + 7) div 8
          \<and> (\<forall>i<length bytes. \<forall>j<8.
                bit (bytes ! i) (7 - j) = (8 * i + j < length s \<and> s ! (8 * i + j) = CHR ''1''))"
    using b(1) by blast
next
  show "pack ''000101011'' = Inr [0x15, 0x80]"
    by (simp add: pack_def get_res_len_def populate_byte_array_def
        populate_byte_array_loop.simps pack_byte_loop.simps)
qed

theorem pack_msb_first_witness:
  "\<exists>bytes. pack ''10000001'' = Inr bytes \<and> length bytes = 1
      \<and> bit (bytes ! 0) 7 \<and> \<not> bit (bytes ! 0) 6 \<and> bit (bytes ! 0) 0"
proof -
  have "set ''10000001'' \<subseteq> {CHR ''0'', CHR ''1''}" by simp
  from pack_msb_first[OF this] obtain bytes where
    b: "pack ''10000001'' = Inr bytes" "length bytes = 1"
       "\<And>j. j < 8 \<Longrightarrow>
          bit (bytes ! 0) (7 - j) = (j < length ''10000001'' \<and> ''10000001'' ! j = CHR ''1'')"
    by auto
  from b(3)[of 0] b(3)[of 1] b(3)[of 7] b(1,2) show ?thesis by simp
qed

section \<open>Unpacking\<close>

lemma digit_bit: "(drop_bit n (w :: 8 word) AND 0x01 = 1) = bit w n"
  by (simp add: and_one_eq bit_iff_odd_drop_bit odd_iff_mod_2_eq_one)

lemma digit_cases: "(w :: 8 word) AND 0x01 = 1 \<or> w AND 0x01 = 0"
  by (simp add: and_one_eq) (metis even_iff_mod_2_eq_zero odd_iff_mod_2_eq_one)

lemma byte2bit_loop_cells:
  "i \<le> 8 \<Longrightarrow> start + 8 \<le> length block \<Longrightarrow>
    \<exists>block'. byte2bit_loop block start byte i = Inr block'
       \<and> length block' = length block
       \<and> (\<forall>p<length block. block' ! p =
             (if start + i \<le> p \<and> p < start + 8 then bit_char byte (p - start) else block ! p))"
proof (induction "8 - i" arbitrary: i block)
  case 0
  then have "\<not> i < 8" by simp
  then show ?case by (subst byte2bit_loop.simps) auto
next
  case (Suc k)
  then have lt: "i < 8" by simp
  define ch where "ch = bit_char byte i"
  have sp: "8 - i - 1 = 7 - i" by simp
  have inb: "start + i < length block" using lt Suc.prems(2) by simp
  have "k = 8 - (i + 1)" "i + 1 \<le> 8" "start + 8 \<le> length (block[start + i := ch])"
    using Suc.hyps(2) lt Suc.prems(2) by simp_all
  from Suc.hyps(1)[OF this] obtain block' where
    b: "byte2bit_loop (block[start + i := ch]) start byte (i + 1) = Inr block'"
       "length block' = length block"
       "\<And>p. p < length block \<Longrightarrow> block' ! p =
             (if start + (i + 1) \<le> p \<and> p < start + 8 then bit_char byte (p - start)
              else block[start + i := ch] ! p)"
    by auto
  have step: "byte2bit_loop block start byte i = Inr block'"
  proof (cases "bit byte (7 - i)")
    case True
    then have d: "drop_bit (8 - i - 1) byte AND 0x01 = 1"
      unfolding sp by (simp only: digit_bit)
    have ch1: "ch = CHR ''1''" using True by (simp add: ch_def bit_char_def)
    have "byte2bit_loop block start byte i =
            byte2bit_loop (block[start + i := CHR ''1'']) start byte (i + 1)"
      by (subst byte2bit_loop.simps) (simp only: lt inb d Let_def if_True if_False simp_thms)
    then show ?thesis using b(1) ch1 by simp
  next
    case False
    then have "drop_bit (7 - i) byte AND 0x01 \<noteq> 1" by (simp only: digit_bit not_False_eq_True)
    then have "drop_bit (7 - i) byte AND 0x01 = 0"
      using digit_cases[of "drop_bit (7 - i) byte"] by blast
    then have d: "drop_bit (8 - i - 1) byte AND 0x01 = 0" unfolding sp .
    have ne: "(0 :: 8 word) \<noteq> 1" by simp
    have ch0: "ch = CHR ''0''" using False by (simp add: ch_def bit_char_def)
    have "byte2bit_loop block start byte i =
            byte2bit_loop (block[start + i := CHR ''0'']) start byte (i + 1)"
      by (subst byte2bit_loop.simps) (simp only: lt inb d ne Let_def if_True if_False simp_thms)
    then show ?thesis using b(1) ch0 by simp
  qed
  have "block' ! p =
          (if start + i \<le> p \<and> p < start + 8 then bit_char byte (p - start) else block ! p)"
    if "p < length block" for p
  proof (cases "p = start + i")
    case True
    then show ?thesis using b(3)[OF that] that lt by (simp add: ch_def)
  next
    case False
    then show ?thesis using b(3)[OF that] by auto
  qed
  with step b(2) show ?case by blast
qed

lemma byte2bit_cells:
  assumes "start + 8 \<le> length block"
  shows "\<exists>block'. byte2bit block start byte = Inr block'
       \<and> length block' = length block
       \<and> (\<forall>p<length block. block' ! p =
             (if start \<le> p \<and> p < start + 8 then bit_char byte (p - start) else block ! p))"
  using byte2bit_loop_cells[of 0 start block byte] assms by (simp add: byte2bit_def)

lemma unpack_loop_cells:
  assumes "len \<le> length c"
  shows "i \<le> len \<Longrightarrow> length bits = 8 * len + 1 \<Longrightarrow>
    \<exists>bits'. unpack_loop bits c len i = Inr bits'
       \<and> length bits' = length bits
       \<and> (\<forall>p<length bits. bits' ! p =
             (if 8 * i \<le> p \<and> p < 8 * len then bit_char (c ! (p div 8)) (p mod 8)
              else bits ! p))"
proof (induction "len - i" arbitrary: i bits)
  case 0
  then have "i = len" by simp
  then show ?case by (subst unpack_loop.simps) auto
next
  case (Suc k)
  then have lt: "i < len" by simp
  then have ic: "i < length c" using assms by simp
  have "8 * i + 8 \<le> length bits" using lt Suc.prems(2) by simp
  from byte2bit_cells[OF this, of "c ! i"] obtain b1 where
    b1: "byte2bit bits (8 * i) (c ! i) = Inr b1" "length b1 = length bits"
        "\<And>p. p < length bits \<Longrightarrow> b1 ! p =
             (if 8 * i \<le> p \<and> p < 8 * i + 8 then bit_char (c ! i) (p - 8 * i) else bits ! p)"
    by blast
  have "k = len - (i + 1)" "i + 1 \<le> len" "length b1 = 8 * len + 1"
    using Suc.hyps(2) lt b1(2) Suc.prems(2) by simp_all
  from Suc.hyps(1)[OF this] obtain bits' where
    b: "unpack_loop b1 c len (i + 1) = Inr bits'" "length bits' = length b1"
       "\<And>p. p < length b1 \<Longrightarrow> bits' ! p =
             (if 8 * (i + 1) \<le> p \<and> p < 8 * len then bit_char (c ! (p div 8)) (p mod 8)
              else b1 ! p)"
    by blast
  have step: "unpack_loop bits c len i = Inr bits'"
    using lt ic b1(1) b(1) by (subst unpack_loop.simps) simp
  have "bits' ! p =
          (if 8 * i \<le> p \<and> p < 8 * len then bit_char (c ! (p div 8)) (p mod 8) else bits ! p)"
    if "p < length bits" for p
  proof -
    have pb: "p < length b1" using that b1(2) by simp
    consider "p < 8 * i" | "8 * i \<le> p" "p < 8 * i + 8" | "8 * i + 8 \<le> p"
      by linarith
    then show ?thesis
    proof cases
      case 1
      then have c1: "(8 * (i + 1) \<le> p \<and> p < 8 * len) = False"
        and c2: "(8 * i \<le> p \<and> p < 8 * i + 8) = False"
        and c3: "(8 * i \<le> p \<and> p < 8 * len) = False"
        by simp_all
      show ?thesis using b(3)[OF pb] b1(3)[OF that]
        by (simp only: c1 c2 c3 if_False)
    next
      case 2
      then have dm: "p div 8 = i" "p mod 8 = p - 8 * i" by arith+
      have c1: "(8 * (i + 1) \<le> p \<and> p < 8 * len) = False" using 2 by simp
      have c2: "(8 * i \<le> p \<and> p < 8 * i + 8) = True" using 2 by simp
      have c3: "(8 * i \<le> p \<and> p < 8 * len) = True" using 2 lt by simp
      show ?thesis using b(3)[OF pb] b1(3)[OF that]
        by (simp only: c1 c2 c3 if_True if_False dm)
    next
      case 3
      then have c1: "(8 * (i + 1) \<le> p \<and> p < 8 * len) = (8 * i \<le> p \<and> p < 8 * len)"
        by auto
      have c2: "(8 * i \<le> p \<and> p < 8 * i + 8) = False" using 3 by simp
      show ?thesis using b(3)[OF pb] b1(3)[OF that]
        by (simp only: c1 c2 if_False)
    qed
  qed
  moreover have "length bits' = length bits" using b(2) b1(2) by simp
  ultimately show ?case using step by blast
qed

lemma unpack_cells:
  assumes "len \<le> length c"
  shows "\<exists>block. unpack c len = Inr block \<and> length block = 8 * len + 1
       \<and> block ! (8 * len) = NUL
       \<and> (\<forall>p<8 * len. block ! p = bit_char (c ! (p div 8)) (p mod 8))"
proof -
  have "0 \<le> len" "length (replicate (8 * len + 1) NUL) = 8 * len + 1" by simp_all
  from unpack_loop_cells[OF assms this] obtain block where
    b: "unpack_loop (replicate (8 * len + 1) NUL) c len 0 = Inr block"
       "length block = 8 * len + 1"
       "\<And>p. p < 8 * len + 1 \<Longrightarrow> block ! p =
             (if 8 * 0 \<le> p \<and> p < 8 * len then bit_char (c ! (p div 8)) (p mod 8)
              else replicate (8 * len + 1) NUL ! p)"
    by auto
  have "unpack c len = Inr block" using b(1) by (simp add: unpack_def)
  moreover have "block ! (8 * len) = NUL"
  proof -
    have "replicate (8 * len + 1) NUL ! (8 * len) = NUL" by (rule nth_replicate) simp
    moreover have "block ! (8 * len) = replicate (8 * len + 1) NUL ! (8 * len)"
      using b(3)[of "8 * len"] by (simp del: replicate_Suc replicate.simps)
    ultimately show ?thesis by (rule back_subst[where P="\<lambda>x. block ! (8 * len) = x", rotated])
  qed
  moreover have "block ! p = bit_char (c ! (p div 8)) (p mod 8)" if "p < 8 * len" for p
    using b(3)[of p] that by simp
  ultimately show ?thesis using b(2) by blast
qed

lemma bit_char_binary: "bit_char byte k \<noteq> NUL"
  by (simp add: bit_char_def)

lemma get_res_len_ge: "n \<le> 8 * get_res_len n"
  unfolding get_res_len_eq by arith

text \<open>
  Claim C3. For a string \<open>s\<close> of \<open>CHR ''0''\<close> and \<open>CHR ''1''\<close> characters, unpacking
  the \<open>ceil(length s / 8)\<close> bytes that \<^verbatim>\<open>pack\<close> returns gives a block whose string
  is \<open>s\<close> followed by \<open>CHR ''0''\<close> characters up to the next multiple of 8 in length:
  it is not shorter than \<open>s\<close> and its first \<open>length s\<close> characters are \<open>s\<close>.
\<close>

theorem unpack_pack_padded:
  assumes "set s \<subseteq> {CHR ''0'', CHR ''1''}"
  shows "\<exists>bytes block. pack s = Inr bytes
       \<and> unpack bytes (get_res_len (length s)) = Inr block
       \<and> c_str block = s @ replicate (8 * get_res_len (length s) - length s) (CHR ''0'')
       \<and> length (c_str block) = 8 * ((length s + 7) div 8)
       \<and> length s \<le> length (c_str block)
       \<and> take (length s) (c_str block) = s"
proof -
  define n where "n = get_res_len (length s)"
  have n8: "length s \<le> 8 * n" using get_res_len_ge by (simp add: n_def)
  from pack_bits[OF assms] obtain bytes where
    pk: "pack s = Inr bytes" and lb: "length bytes = n" and
    bits: "\<And>i m. i < length bytes \<Longrightarrow>
             bit (bytes ! i) m = (m < 8 \<and> bit_set s (8 * i + (7 - m)))"
    unfolding n_def by blast
  have "n \<le> length bytes" using lb by simp
  from unpack_cells[OF this] obtain block where
    up: "unpack bytes n = Inr block" and lbl: "length block = 8 * n + 1" and
    nul: "block ! (8 * n) = NUL" and
    cells: "\<And>p. p < 8 * n \<Longrightarrow> block ! p = bit_char (bytes ! (p div 8)) (p mod 8)"
    by blast
  have cs: "c_str block = take (8 * n) block"
    unfolding c_str_def
  proof (rule takeWhile_eq_take_P_nth)
    fix i assume "i < 8 * n"
    then show "block ! i \<noteq> NUL" using cells[of i] bit_char_binary by simp
  next
    show "\<not> block ! (8 * n) \<noteq> NUL" using nul by simp
  qed
  let ?t = "s @ replicate (8 * n - length s) (CHR ''0'')"
  have lt: "length ?t = 8 * n" using n8 by simp
  have "take (8 * n) block = ?t"
  proof (rule nth_equalityI)
    show "length (take (8 * n) block) = length ?t" using lt lbl by simp
  next
    fix p assume "p < length (take (8 * n) block)"
    then have p: "p < 8 * n" by simp
    then have pd: "p div 8 < length bytes" using lb by simp
    have e1: "7 - (7 - p mod 8) = p mod 8" by simp
    have e2: "8 * (p div 8) + p mod 8 = p" by simp
    have e3: "7 - p mod 8 < 8" by simp
    have "bit (bytes ! (p div 8)) (7 - p mod 8) = bit_set s p"
      unfolding bits[OF pd, of "7 - p mod 8"] e1 e2 using e3 by simp
    then have cell: "block ! p = (if bit_set s p then CHR ''1'' else CHR ''0'')"
      using cells[OF p] by (simp add: bit_char_def)
    have "?t ! p = (if bit_set s p then CHR ''1'' else CHR ''0'')"
    proof (cases "p < length s")
      case True
      then have "s ! p \<in> set s" by simp
      then have "s ! p = CHR ''0'' \<or> s ! p = CHR ''1''" using assms by blast
      then show ?thesis using True by (auto simp: nth_append bit_set_def)
    next
      case False
      then show ?thesis using p lt by (simp add: nth_append bit_set_def)
    qed
    then show "take (8 * n) block ! p = ?t ! p" using cell p by simp
  qed
  then have c: "c_str block = ?t" using cs by simp
  have "length (c_str block) = 8 * ((length s + 7) div 8)"
    using c lt by (simp add: n_def get_res_len_eq)
  moreover have "length s \<le> length (c_str block)" using c by simp
  moreover have "take (length s) (c_str block) = s" using c by simp
  ultimately show ?thesis using pk up c unfolding n_def by blast
qed

theorem unpack_pack_padded_witness:
  "\<exists>bytes block. pack ''000101011'' = Inr bytes
       \<and> unpack bytes 2 = Inr block
       \<and> c_str block = ''0001010110000000''"
proof -
  have h: "set ''000101011'' \<subseteq> {CHR ''0'', CHR ''1''}" by simp
  have g: "get_res_len (length ''000101011'') = 2" by (simp add: get_res_len_def)
  have r: "''000101011'' @ replicate (8 * 2 - length ''000101011'') (CHR ''0'')
             = ''0001010110000000''"
    by (simp add: numeral_eq_Suc)
  from unpack_pack_padded[OF h] obtain bytes block where
    "pack ''000101011'' = Inr bytes"
    "unpack bytes (get_res_len (length ''000101011'')) = Inr block"
    "c_str block = ''000101011'' @
       replicate (8 * get_res_len (length ''000101011'') - length ''000101011'') (CHR ''0'')"
    by blast
  then show ?thesis unfolding g r by blast
qed


section \<open>Non-binary characters in the decoder\<close>

text \<open>
  Claim C9. The claim is that a string with a character other than \<open>CHR ''0''\<close> or
  \<open>CHR ''1''\<close> is rejected by the decoder. The loops of \<^verbatim>\<open>find_len\<close> and
  \<^verbatim>\<open>parse_code\<close> test \<^verbatim>\<open>code[i] == '0'\<close> and send every other character to
  the right child; the assertion \<^verbatim>\<open>ASSERT(code[i] == '1')\<close> in the other branch is
  commented out. For the tree with the leaves 97 (left) and 98 (right), the string
  \<open>''2''\<close> is decoded to the symbol 98, as the string \<open>''1''\<close> is.
\<close>

theorem decode_src_accepts_non_binary:
  "is_htree (Node 0 2 (Node 97 1 Null Null) (Node 98 1 Null Null))
   \<and> decode_src (Node 0 2 (Node 97 1 Null Null) (Node 98 1 Null Null)) ''2'' = Inr ([98], 1)
   \<and> decode_src (Node 0 2 (Node 97 1 Null Null) (Node 98 1 Null Null)) ''1'' = Inr ([98], 1)"
  by (simp add: decode_src_def find_len_def parse_code_def)

section \<open>Freeing a single leaf\<close>

text \<open>
  Claim C10. The claim is that \<^verbatim>\<open>free_htree\<close> of a single leaf frees the leaf and
  returns. The branch for a leaf calls \<^verbatim>\<open>free\<close> and does not return, so control
  reaches the statements after it: with contracts, the assertion
  \<^verbatim>\<open>is_htree_interior(tree)\<close> reads the fields of the freed node; without, the
  recursive call reads \<^verbatim>\<open>tree->left\<close> of the freed node. On the heap that holds one
  leaf, which satisfies the precondition, \<^verbatim>\<open>free_htree\<close> ends in a read of a freed
  block in both builds, whatever the fuel (two steps suffice).
\<close>

theorem free_htree_leaf_use_after_free:
  "is_htree_at (Suc n) leaf_heap (Some 0) = Ok True
   \<and> is_htree_leaf_at leaf_heap (Some 0) = Ok True
   \<and> free_htree contracts (Suc (Suc n)) leaf_heap (Some 0) = Fault UseAfterFree"
  by (cases contracts) (simp_all add: leaf_heap_def is_htree_leaf_at_def)

end
